theory Spec2Isabelle
  imports Main
begin

section \<open>Bulk insert in batches: the model of insert.go\<close>

text \<open>
  The package splits the rows of one \<^verbatim>\<open>Exec\<close> call into batches so that no prepared
  statement carries more than \<^verbatim>\<open>MaxBindVars\<close> bind parameters, renders the
  placeholder list of each statement, runs the statements and adds up their results.

  Go's \<^verbatim>\<open>int\<close> is modelled as \<^typ>\<open>int\<close>: every subtraction of the source is kept as
  it is written, so a negative value would show. Go's \<^verbatim>\<open>/\<close> truncates towards zero and
  \<open>div\<close> rounds down; the operands here are lengths and counts, never negative, where
  the two agree. The 64-bit wrap-around is left out: \<^verbatim>\<open>len(s.Casts) * len(rows)\<close> is the
  number of values in the rows when every row has one value per column, and the other
  products and the placeholder numbers are no larger.
\<close>

subsection \<open>The database collaborator\<close>

text \<open>
  \<^verbatim>\<open>database/sql\<close> is outside the package. A driver error is an opaque value. The
  statement handle returned by a successful \<^verbatim>\<open>Prepare\<close> is the text it was prepared
  from, tagged with the number of calls made before it, so that two handles never
  coincide. Every call on the database is logged as an event; what the database answers
  may depend on everything that happened before, so the log is the state of the
  collaborator.
\<close>

datatype error = Error string

text \<open>
  Modelled from the spec: the type \<^verbatim>\<open>result\<close> and its method \<^verbatim>\<open>add\<close> are used by
  \<^verbatim>\<open>Exec\<close> and live in a file of the package that is not part of the sources at hand.
  Section 4.4 of the specification: rows-affected accumulates by sum, the generated
  identifier is overwritten by the latest batch's value. The driver's
  \<^verbatim>\<open>sql.Result\<close> is read as the same pair of numbers.
\<close>

record result =
  lastInsertId :: int
  rowsAffected :: int

definition add :: "result \<Rightarrow> result \<Rightarrow> result" where
  "add r res = \<lparr>lastInsertId = lastInsertId res,
                rowsAffected = rowsAffected r + rowsAffected res\<rparr>"

type_synonym stmt = "nat \<times> string"

datatype 'v event =
    Prepared stmt
  | PrepareFailed string error
  | Executed stmt "'v list" result
  | ExecFailed stmt "'v list" error
  | Closed stmt

record 'v DB =
  dbPrepare :: "'v event list \<Rightarrow> string \<Rightarrow> error option"
  stmtExec :: "'v event list \<Rightarrow> stmt \<Rightarrow> 'v list \<Rightarrow> error + result"

subsection \<open>The Insert value\<close>

record 'v Insert =
  DB :: "'v DB"
  SQL :: string
  Casts :: "string list"
  stmt :: "stmt option"
  bindvars :: "'v list"
  result :: result

definition NewInsert :: "'v DB \<Rightarrow> string \<Rightarrow> string list \<Rightarrow> 'v Insert" where
  "NewInsert db sql casts =
     \<lparr>DB = db, SQL = sql, Casts = casts, stmt = None, bindvars = [],
      result = \<lparr>lastInsertId = 0, rowsAffected = 0\<rparr>\<rparr>"

definition MaxBindVars :: int where
  "MaxBindVars = 65535"

subsection \<open>Strings: \<^verbatim>\<open>fmt.Sprintf\<close>, \<^verbatim>\<open>strings.Join\<close>, \<^verbatim>\<open>strings.Replace\<close>\<close>

function decimal :: "nat \<Rightarrow> string" where
  "decimal n =
     (if n < 10 then [''0123456789'' ! n]
      else decimal (n div 10) @ [''0123456789'' ! (n mod 10)])"
  by pat_completeness auto
termination
  by (relation "measure (\<lambda>n. n)") auto

declare decimal.simps [simp del]

text \<open>The verb \<^verbatim>\<open>%d\<close> of \<^verbatim>\<open>fmt.Sprintf\<close> on an \<^verbatim>\<open>int\<close>.\<close>

definition itoa :: "int \<Rightarrow> string" where
  "itoa i = (if i < 0 then CHR ''-'' # decimal (nat (- i)) else decimal (nat i))"

fun Join :: "string list \<Rightarrow> string \<Rightarrow> string" where
  "Join [] sep = []"
| "Join [x] sep = x"
| "Join (x # y # ys) sep = x @ sep @ Join (y # ys) sep"

text \<open>\<^verbatim>\<open>strings.Replace(s, old, new, 1)\<close>: the first occurrence only.\<close>

fun Replace1 :: "string \<Rightarrow> string \<Rightarrow> string \<Rightarrow> string" where
  "Replace1 [] old new = (if old = [] then new else [])"
| "Replace1 (c # cs) old new =
     (if take (length old) (c # cs) = old then new @ drop (length old) (c # cs)
      else c # Replace1 cs old new)"

subsection \<open>valuePlaceholders\<close>

text \<open>
  The inner loop \<^verbatim>\<open>for j, cast := range s.Casts\<close> of row \<open>i\<close>: \<open>n\<close> is
  \<^verbatim>\<open>len(s.Casts)\<close>, \<open>j\<close> the index of the head of the casts still to visit, \<open>val\<close>
  the slice appended to.
\<close>

fun castLoop :: "int \<Rightarrow> int \<Rightarrow> int \<Rightarrow> string list \<Rightarrow> string list \<Rightarrow> string list" where
  "castLoop i n j [] val = val"
| "castLoop i n j (cast # casts) val =
     (let placeCount = i * n + j + 1 in
      if cast = []
      then castLoop i n (j + 1) casts (val @ [''$'' @ itoa placeCount])
      else castLoop i n (j + 1) casts (val @ [''$'' @ itoa placeCount @ ''::'' @ cast]))"

text \<open>The outer loop \<^verbatim>\<open>for i := 0; i < count; i++\<close>.\<close>

function rowLoop :: "string list \<Rightarrow> int \<Rightarrow> int \<Rightarrow> string list \<Rightarrow> string list" where
  "rowLoop casts count i values =
     (if i < count
      then rowLoop casts count (i + 1)
             (values @ [''('' @ Join (castLoop i (int (length casts)) 0 casts []) '', '' @ '')''])
      else values)"
  by pat_completeness auto
termination
  by (relation "measure (\<lambda>(casts, count, i, values). nat (count - i))") auto

declare rowLoop.simps [simp del]

definition valuePlaceholders :: "'v Insert \<Rightarrow> int \<Rightarrow> string" where
  "valuePlaceholders s count = Join (rowLoop (Casts s) count 0 []) '',\<newline>''"

subsection \<open>prepare\<close>

text \<open>
  \<^verbatim>\<open>s.stmt, err = s.Prepare(...)\<close>: on an error the handle stored is nil. The result is
  the Insert, the log and the error.
\<close>

definition prepare ::
  "'v Insert \<Rightarrow> 'v event list \<Rightarrow> int \<Rightarrow> 'v Insert \<times> 'v event list \<times> error option" where
  "prepare s h count =
     (let q = Replace1 (SQL s) ''<values>'' (valuePlaceholders s count) in
      case dbPrepare (DB s) h q of
        Some err \<Rightarrow> (s\<lparr>stmt := None\<rparr>, h @ [PrepareFailed q err], Some err)
      | None \<Rightarrow> (s\<lparr>stmt := Some (length h, q)\<rparr>, h @ [Prepared (length h, q)], None))"

subsection \<open>Planning: lines 43 to 50 and 76 of Exec\<close>

text \<open>
  The loop \<^verbatim>\<open>for leftovers > batchSize { batches++; leftovers -= batchSize }\<close>. It has no
  bound of its own, so it is a partial function: \<open>None\<close> is a loop that never ends.
\<close>

partial_function (option) rebalance :: "int \<Rightarrow> int \<Rightarrow> int \<Rightarrow> (int \<times> int) option" where
  "rebalance batches leftovers batchSize =
     (if leftovers > batchSize
      then rebalance (batches + 1) (leftovers - batchSize) batchSize
      else Some (batches, leftovers))"

declare rebalance.simps [code]

text \<open>
  What Exec has computed when it starts to talk to the database: in the \<^verbatim>\<open>else\<close>
  branch only \<^verbatim>\<open>leftovers\<close> (there is no \<^verbatim>\<open>batchSize\<close> in scope), otherwise
  \<^verbatim>\<open>batches\<close>, \<^verbatim>\<open>batchSize\<close> and \<^verbatim>\<open>leftovers\<close> as the loop left them.
\<close>

datatype plan = Single int | Split int int int

definition planning :: "int \<Rightarrow> int \<Rightarrow> plan option" where
  "planning columns rowCount =
     (let batches = columns * rowCount div MaxBindVars in
      if batches > 0 then
        (let batchSize = rowCount div (batches + 1);
             leftovers = rowCount - batchSize * batches in
         case rebalance batches leftovers batchSize of
           None \<Rightarrow> None
         | Some (batches', leftovers') \<Rightarrow> Some (Split batches' batchSize leftovers'))
      else Some (Single rowCount))"

text \<open>The sizes of the batches in the order Exec runs them, the final batch last.\<close>

fun plan_sizes :: "plan \<Rightarrow> int list" where
  "plan_sizes (Single leftovers) = [leftovers]"
| "plan_sizes (Split batches batchSize leftovers) =
     replicate (nat batches) batchSize @ [leftovers]"

subsection \<open>Slices\<close>

text \<open>
  \<^verbatim>\<open>rows[lo:hi]\<close> panics unless \<open>0 \<le> lo \<le> hi \<le> cap(rows)\<close>. The capacity is not
  visible here: a read beyond the length is taken as a panic too.
\<close>

definition slice :: "'a list \<Rightarrow> int \<Rightarrow> int \<Rightarrow> 'a list option" where
  "slice xs lo hi =
     (if 0 \<le> lo \<and> lo \<le> hi \<and> hi \<le> int (length xs)
      then Some (take (nat (hi - lo)) (drop (nat lo) xs))
      else None)"

text \<open>
  The row ranges Exec reads, batch by batch: \<^verbatim>\<open>rows[i*batchSize : i*batchSize+batchSize]\<close>
  for each regular batch, then \<^verbatim>\<open>rows[len(rows)-leftovers:]\<close>.
\<close>

fun batchRows :: "plan \<Rightarrow> 'a list \<Rightarrow> 'a list list option" where
  "batchRows (Single leftovers) rows =
     those [slice rows (int (length rows) - leftovers) (int (length rows))]"
| "batchRows (Split batches batchSize leftovers) rows =
     those (map (\<lambda>i. slice rows (int i * batchSize) (int i * batchSize + batchSize))
              [0..<nat batches]
            @ [slice rows (int (length rows) - leftovers) (int (length rows))])"

subsection \<open>Exec\<close>

datatype status = Done | Failed error | Panicked

text \<open>What Exec gives back: a panic, or the pair \<^verbatim>\<open>(sql.Result, error)\<close>.\<close>

datatype outcome = Panic | Return result "error option"

text \<open>
  The loop \<^verbatim>\<open>for i := 0; i < batches; i++\<close> inside the closure. The arguments of one
  call are the rows of the batch, flattened.
\<close>

function execBatches ::
  "'v Insert \<Rightarrow> 'v event list \<Rightarrow> 'v list list \<Rightarrow> int \<Rightarrow> int \<Rightarrow> int
     \<Rightarrow> 'v Insert \<times> 'v event list \<times> status" where
  "execBatches s h rows batchSize batches i =
     (if i < batches then
        (case slice rows (i * batchSize) (i * batchSize + batchSize) of
           None \<Rightarrow> (s, h, Panicked)
         | Some rs \<Rightarrow>
             (case stmt s of
                None \<Rightarrow> (s, h, Panicked)
              | Some q \<Rightarrow>
                  (case stmtExec (DB s) h q (concat rs) of
                     Inl err \<Rightarrow> (s, h @ [ExecFailed q (concat rs) err], Failed err)
                   | Inr res \<Rightarrow>
                       execBatches (s\<lparr>result := add (result s) res\<rparr>)
                         (h @ [Executed q (concat rs) res]) rows batchSize batches (i + 1))))
      else (s, h, Done))"
  by pat_completeness auto
termination
  by (relation "measure (\<lambda>(s, h, rows, batchSize, batches, i). nat (batches - i))") auto

declare execBatches.simps [simp del]

text \<open>
  The closure of lines 51 to 71: one \<^verbatim>\<open>prepare(batchSize)\<close>, the deferred
  \<^verbatim>\<open>s.stmt.Close()\<close> (its receiver is read when the \<^verbatim>\<open>defer\<close> statement runs, the call
  is made when the closure returns), and the loop.
\<close>

definition execRegular ::
  "'v Insert \<Rightarrow> 'v event list \<Rightarrow> 'v list list \<Rightarrow> int \<Rightarrow> int
     \<Rightarrow> 'v Insert \<times> 'v event list \<times> status" where
  "execRegular s h rows batchSize batches =
     (case prepare s h batchSize of
        (s1, h1, Some err) \<Rightarrow> (s1, h1, Failed err)
      | (s1, h1, None) \<Rightarrow>
          (case stmt s1 of
             None \<Rightarrow> (s1, h1, Panicked)
           | Some q \<Rightarrow>
               (case execBatches s1 h1 rows batchSize batches 0 of
                  (s2, h2, st) \<Rightarrow> (s2, h2 @ [Closed q], st))))"

text \<open>Lines 79 to 95: the final batch.\<close>

definition execFinal ::
  "'v Insert \<Rightarrow> 'v event list \<Rightarrow> 'v list list \<Rightarrow> int
     \<Rightarrow> 'v Insert \<times> 'v event list \<times> outcome" where
  "execFinal s h rows leftovers =
     (case prepare s h leftovers of
        (s1, h1, Some err) \<Rightarrow> (s1, h1, Return (result s1) (Some err))
      | (s1, h1, None) \<Rightarrow>
          (case stmt s1 of
             None \<Rightarrow> (s1, h1, Panic)
           | Some q \<Rightarrow>
               (case slice rows (int (length rows) - leftovers) (int (length rows)) of
                  None \<Rightarrow> (s1, h1 @ [Closed q], Panic)
                | Some rs \<Rightarrow>
                    (case stmtExec (DB s1) h1 q (concat rs) of
                       Inl err \<Rightarrow>
                         (s1, h1 @ [ExecFailed q (concat rs) err, Closed q],
                          Return (result s1) (Some err))
                     | Inr res \<Rightarrow>
                         (s1\<lparr>result := add (result s1) res\<rparr>,
                          h1 @ [Executed q (concat rs) res, Closed q],
                          Return (add (result s1) res) None)))))"

text \<open>
  Exec, from the Insert and the log so far to the Insert and the log afterwards and what
  the caller gets. \<open>None\<close>: the planning loop never ends and Exec does not return.
\<close>

definition Exec ::
  "'v Insert \<Rightarrow> 'v event list \<Rightarrow> 'v list list
     \<Rightarrow> ('v Insert \<times> 'v event list \<times> outcome) option" where
  "Exec s h rows =
     (let batches = int (length (Casts s)) * int (length rows) div MaxBindVars in
      if batches > 0 then
        (let batchSize = int (length rows) div (batches + 1);
             leftovers = int (length rows) - batchSize * batches in
         case rebalance batches leftovers batchSize of
           None \<Rightarrow> None
         | Some (batches', leftovers') \<Rightarrow>
             (case execRegular s h rows batchSize batches' of
                (s1, h1, Panicked) \<Rightarrow> Some (s1, h1, Panic)
              | (s1, h1, Failed err) \<Rightarrow> Some (s1, h1, Return (result s1) (Some err))
              | (s1, h1, Done) \<Rightarrow> Some (execFinal s1 h1 rows leftovers')))
      else Some (execFinal s h rows (int (length rows))))"

subsection \<open>Reading a log\<close>

fun is_prepare :: "'v event \<Rightarrow> bool" where
  "is_prepare (Prepared q) = True"
| "is_prepare (PrepareFailed t e) = True"
| "is_prepare ev = False"

fun is_exec :: "'v event \<Rightarrow> bool" where
  "is_exec (Executed q args res) = True"
| "is_exec (ExecFailed q args e) = True"
| "is_exec ev = False"

fun is_failure :: "'v event \<Rightarrow> bool" where
  "is_failure (PrepareFailed t e) = True"
| "is_failure (ExecFailed q args e) = True"
| "is_failure ev = False"

fun is_close :: "'v event \<Rightarrow> bool" where
  "is_close (Closed q) = True"
| "is_close ev = False"

fun error_of :: "'v event \<Rightarrow> error option" where
  "error_of (PrepareFailed t e) = Some e"
| "error_of (ExecFailed q args e) = Some e"
| "error_of ev = None"

text \<open>The results and the argument lists of the calls that succeeded, in order.\<close>

fun results_of :: "'v event list \<Rightarrow> result list" where
  "results_of [] = []"
| "results_of (Executed q args res # t) = res # results_of t"
| "results_of (ev # t) = results_of t"

fun args_of :: "'v event list \<Rightarrow> 'v list list" where
  "args_of [] = []"
| "args_of (Executed q args res # t) = args # args_of t"
| "args_of (ev # t) = args_of t"

text \<open>
  The discipline of one open statement at a time, as a run over the log: \<open>scoped cur t\<close>
  holds when, starting with the handle \<open>cur\<close> open (or none), every prepare finds no
  handle open, every execution and every close is on the open handle, and none is open
  at the end.
\<close>

fun scoped :: "stmt option \<Rightarrow> 'v event list \<Rightarrow> bool" where
  "scoped cur [] = (cur = None)"
| "scoped cur (Prepared q # t) = (cur = None \<and> scoped (Some q) t)"
| "scoped cur (PrepareFailed txt e # t) = (cur = None \<and> scoped None t)"
| "scoped cur (Executed q args res # t) = (cur = Some q \<and> scoped cur t)"
| "scoped cur (ExecFailed q args e # t) = (cur = Some q \<and> scoped cur t)"
| "scoped cur (Closed q # t) = (cur = Some q \<and> scoped None t)"

text \<open>
  A log agrees with the database when every event in it is what the database answered at
  that point: \<open>truthful db h t\<close> runs over \<open>t\<close> with \<open>h\<close> the log before it.
\<close>

fun truthful :: "'v DB \<Rightarrow> 'v event list \<Rightarrow> 'v event list \<Rightarrow> bool" where
  "truthful db h [] = True"
| "truthful db h (Prepared q # t) =
     (dbPrepare db h (snd q) = None \<and> fst q = length h \<and> truthful db (h @ [Prepared q]) t)"
| "truthful db h (PrepareFailed tx e # t) =
     (dbPrepare db h tx = Some e \<and> truthful db (h @ [PrepareFailed tx e]) t)"
| "truthful db h (Executed q args res # t) =
     (stmtExec db h q args = Inr res \<and> truthful db (h @ [Executed q args res]) t)"
| "truthful db h (ExecFailed q args e # t) =
     (stmtExec db h q args = Inl e \<and> truthful db (h @ [ExecFailed q args e]) t)"
| "truthful db h (Closed q # t) = truthful db (h @ [Closed q]) t"

subsection \<open>Databases for the examples\<close>

text \<open>
  Two stand-ins for the collaborator, used where a property is shown on a concrete call.
  \<open>okDB\<close> accepts every statement and reports one row affected per argument;
  \<open>failingDB k\<close> does the same but refuses the execution that comes after \<open>k\<close>
  successful ones.
\<close>

definition okDB :: "'v DB" where
  "okDB = \<lparr>dbPrepare = (\<lambda>h q. None),
           stmtExec = (\<lambda>h q args. Inr \<lparr>lastInsertId = 0, rowsAffected = int (length args)\<rparr>)\<rparr>"

definition failingDB :: "nat \<Rightarrow> 'v DB" where
  "failingDB k =
     \<lparr>dbPrepare = (\<lambda>h q. None),
      stmtExec = (\<lambda>h q args.
         if length (results_of h) = k then Inl (Error ''constraint'')
         else Inr \<lparr>lastInsertId = 0, rowsAffected = int (length args)\<rparr>)\<rparr>"

section \<open>Planning\<close>

lemma rebalance_diverges:
  assumes "batchSize \<le> 0" and "batchSize < leftovers"
  shows "rebalance batches leftovers batchSize = None"
proof (rule ccontr)
  assume "rebalance batches leftovers batchSize \<noteq> None"
  then obtain y where h: "rebalance batches leftovers batchSize = Some y" by blast
  have "\<not> (batchSize \<le> 0 \<and> batchSize < leftovers)"
  proof (rule rebalance.raw_induct
      [rotated 1, OF h, where P = "\<lambda>b l s y. \<not> (s \<le> 0 \<and> s < l)"])
    fix rb :: "int \<Rightarrow> int \<Rightarrow> int \<Rightarrow> (int \<times> int) option" and b l s y
    assume IH: "\<And>b l s y. rb b l s = Some y \<Longrightarrow> \<not> (s \<le> 0 \<and> s < l)"
      and st: "(if s < l then rb (b + 1) (l - s) s else Some (b, l)) = Some y"
    show "\<not> (s \<le> 0 \<and> s < l)"
    proof
      assume a: "s \<le> 0 \<and> s < l"
      with st have "rb (b + 1) (l - s) s = Some y" by simp
      from IH[OF this] a show False by linarith
    qed
  qed
  with assms show False by simp
qed

lemma rebalance_terminates:
  "1 \<le> batchSize \<Longrightarrow>
   \<exists>b l. rebalance batches leftovers batchSize = Some (b, l) \<and> l \<le> batchSize
     \<and> batches \<le> b \<and> b * batchSize + l = batches * batchSize + leftovers
     \<and> (batchSize \<le> leftovers \<longrightarrow> 1 \<le> l) \<and> (leftovers \<le> batchSize \<longrightarrow> b = batches)"
proof (induction "nat (leftovers - batchSize)" arbitrary: batches leftovers rule: less_induct)
  case less
  show ?case
  proof (cases "leftovers > batchSize")
    case False
    then show ?thesis using less.prems by (subst rebalance.simps) auto
  next
    case True
    have "nat (leftovers - batchSize - batchSize) < nat (leftovers - batchSize)"
      using True less.prems by linarith
    from less.hyps[OF this less.prems, of "batches + 1"]
    obtain b l where h: "rebalance (batches + 1) (leftovers - batchSize) batchSize = Some (b, l)"
      "l \<le> batchSize" "batches + 1 \<le> b"
      "b * batchSize + l = (batches + 1) * batchSize + (leftovers - batchSize)"
      "batchSize \<le> leftovers - batchSize \<longrightarrow> 1 \<le> l"
      "leftovers - batchSize \<le> batchSize \<longrightarrow> b = batches + 1" by blast
    have "rebalance batches leftovers batchSize = Some (b, l)"
      using True h(1) by (subst rebalance.simps) simp
    moreover have "1 \<le> l" using h(5,6) True less.prems h(2,3,4)
      by (cases "batchSize \<le> leftovers - batchSize") (auto simp: algebra_simps)
    ultimately show ?thesis using h True by (auto simp: algebra_simps)
  qed
qed

lemma div_bounds:
  fixes a :: int
  assumes "0 < m"
  shows "a div m * m \<le> a" and "a < (a div m + 1) * m"
proof -
  have e: "m * (a div m) + a mod m = a" by (rule mult_div_mod_eq)
  have h: "0 \<le> a mod m" "a mod m < m" using assms by simp_all
  have "m * (a div m) \<le> a" using e h by linarith
  then show "a div m * m \<le> a" by (simp add: mult.commute)
  have "a < m * (a div m) + m" using e h by linarith
  then show "a < (a div m + 1) * m" by (simp add: algebra_simps)
qed

lemma planning_Split:
  assumes p: "planning C R = Some (Split b bsz l)" and R: "0 \<le> R"
  shows "1 \<le> b" and "1 \<le> bsz" and "1 \<le> l" and "l \<le> bsz" and "b * bsz + l = R"
    and "C * bsz < MaxBindVars"
    and "bsz = R div (C * R div MaxBindVars + 1)"
    and "C * R div MaxBindVars \<le> b"
proof -
  define b0 where "b0 = C * R div MaxBindVars"
  define l0 where "l0 = R - bsz * b0"
  from p have b0: "0 < b0" and bsz: "bsz = R div (b0 + 1)"
    and rb: "rebalance b0 l0 bsz = Some (b, l)"
    by (auto simp: planning_def Let_def b0_def l0_def split: if_splits option.splits)
  have le: "bsz * (b0 + 1) \<le> R" using div_bounds(1)[of "b0 + 1" R] b0 bsz by simp
  have M: "0 < MaxBindVars" by (simp add: MaxBindVars_def)
  have CR: "b0 * MaxBindVars \<le> C * R" "C * R < (b0 + 1) * MaxBindVars"
    using div_bounds[OF M, of "C * R"] by (simp_all add: b0_def)
  have "0 \<le> bsz" using R b0 bsz by (simp add: pos_imp_zdiv_nonneg_iff)
  have "1 \<le> bsz"
  proof (rule ccontr)
    assume "\<not> 1 \<le> bsz"
    with \<open>0 \<le> bsz\<close> have z: "bsz = 0" by simp
    have "0 < b0 * MaxBindVars" using b0 M by simp
    with CR(1) have "0 < C * R" by linarith
    then have "R \<noteq> 0" by auto
    with R have "bsz < l0" by (simp add: l0_def z)
    from rebalance_diverges[OF _ this, of b0] z rb show False by simp
  qed
  from rebalance_terminates[OF this, of b0 l0] rb
  have r: "l \<le> bsz" "b0 \<le> b" "b * bsz + l = b0 * bsz + l0" "bsz \<le> l0 \<longrightarrow> 1 \<le> l"
    by auto
  have "bsz \<le> l0" using le by (simp add: l0_def algebra_simps)
  with r show "1 \<le> l" "l \<le> bsz" by auto
  show "1 \<le> b" using r(2) b0 by simp
  show "C * R div MaxBindVars \<le> b" using r(2) by (simp add: b0_def)
  show "1 \<le> bsz" by fact
  show "b * bsz + l = R" using r(3) by (simp add: l0_def algebra_simps)
  show "bsz = R div (C * R div MaxBindVars + 1)" using bsz by (simp add: b0_def)
  have "C * bsz * (b0 + 1) \<le> C * R"
  proof -
    have "0 < b0 * MaxBindVars" using b0 M by simp
    with CR(1) have "0 < C * R" by linarith
    moreover have "0 < R"
    proof -
      have "0 < bsz * (b0 + 1)" using \<open>1 \<le> bsz\<close> b0 by simp
      with le show ?thesis by linarith
    qed
    ultimately have "0 \<le> C" by (simp add: zero_less_mult_iff)
    then have "C * (bsz * (b0 + 1)) \<le> C * R" using le by (rule mult_left_mono[rotated])
    then show ?thesis by (simp add: mult.assoc)
  qed
  with CR(2) have "C * bsz * (b0 + 1) < MaxBindVars * (b0 + 1)" by (simp add: mult.commute)
  then show "C * bsz < MaxBindVars" using b0 by simp
qed

lemma planning_Single:
  assumes "planning C R = Some (Single l)"
  shows "l = R" and "C * R div MaxBindVars \<le> 0"
  using assms by (auto simp: planning_def Let_def split: if_splits option.splits)

lemma planning_total:
  assumes "0 \<le> R" and "C < MaxBindVars"
  shows "\<exists>p. planning C R = Some p"
proof (cases "0 < C * R div MaxBindVars")
  case False
  then show ?thesis by (simp add: planning_def)
next
  case True
  define b0 where "b0 = C * R div MaxBindVars"
  have M: "0 < MaxBindVars" by (simp add: MaxBindVars_def)
  have CR: "b0 * MaxBindVars \<le> C * R"
    using div_bounds(1)[OF M, of "C * R"] by (simp add: b0_def)
  have b0: "0 < b0" using True by (simp add: b0_def)
  then have "0 < b0 * MaxBindVars" using M by simp
  with CR have "0 < C * R" by linarith
  with assms(1) have R: "0 < R" and C: "0 < C" by (auto simp: zero_less_mult_iff)
  have "C * R < MaxBindVars * R" using assms(2) R by simp
  then have "b0 * MaxBindVars < R * MaxBindVars" using CR by (simp add: mult.commute)
  then have "b0 < R" using M by simp
  then have "b0 + 1 \<le> R" by simp
  moreover have "0 < b0 + 1" using b0 by simp
  ultimately have "0 < R div (b0 + 1)" by (simp only: pos_imp_zdiv_pos_iff)
  then have "1 \<le> R div (b0 + 1)" by simp
  from rebalance_terminates[OF this, of b0 "R - R div (b0 + 1) * b0"]
  show ?thesis using True by (auto simp: planning_def Let_def b0_def)
qed

lemma planning_diverges:
  assumes "1 \<le> R" and "MaxBindVars \<le> C"
  shows "planning C R = None"
proof -
  define b0 where "b0 = C * R div MaxBindVars"
  have M: "0 < MaxBindVars" by (simp add: MaxBindVars_def)
  have "MaxBindVars * R \<le> C * R" using assms by (simp add: mult_right_mono)
  then have "R * MaxBindVars div MaxBindVars \<le> C * R div MaxBindVars"
    by (simp only: mult.commute[of R] zdiv_mono1[OF _ M])
  then have b0: "R \<le> b0" using M by (simp add: b0_def)
  then have z: "R div (b0 + 1) = 0" using assms(1) by (simp add: div_pos_pos_trivial)
  have "rebalance b0 (R - R div (b0 + 1) * b0) (R div (b0 + 1)) = None"
    by (rule rebalance_diverges) (use z assms(1) in simp_all)
  then show ?thesis using b0 assms(1) by (simp add: planning_def Let_def b0_def)
qed

text \<open>
  C3 claims that planning ends for every row count and every column count from 1 up. With
  65535 columns and one row it does not: \<^verbatim>\<open>batches\<close> is 1, \<^verbatim>\<open>batchSize\<close> is
  \<open>1 div 2 = 0\<close>, \<^verbatim>\<open>leftovers\<close> is 1, and the loop subtracts 0 for ever. Exec
  never returns, whatever the database, the template, the casts and the row are.
\<close>

theorem Exec_65535_columns_never_returns:
  "planning 65535 1 = None \<and> Exec (NewInsert db sql (replicate 65535 cast)) h [row] = None"
proof -
  have r: "rebalance 1 1 0 = None" by (rule rebalance_diverges) simp_all
  show ?thesis
    by (simp add: planning_def Exec_def NewInsert_def MaxBindVars_def r)
qed

text \<open>
  Below the ceiling the loop ends: with fewer than \<^verbatim>\<open>MaxBindVars\<close> columns a plan is
  always produced.
\<close>

theorem planning_terminates_below_ceiling:
  assumes "0 \<le> rowCount" and "1 \<le> columns" and "columns < MaxBindVars"
  shows "\<exists>p. planning columns rowCount = Some p"
  using planning_total[OF assms(1,3)] .

text \<open>
  C10: when the first division gives at least one regular batch and the batch size
  computed from it is at least 1, the loop ends with \<open>1 \<le> leftovers \<le> batchSize\<close>:
  the final batch is never empty after a split.
\<close>

theorem leftover_nonempty_when_split:
  assumes "1 \<le> columns * rowCount div MaxBindVars"
    and "1 \<le> rowCount div (columns * rowCount div MaxBindVars + 1)"
  shows "\<exists>batches leftovers.
           planning columns rowCount =
             Some (Split batches (rowCount div (columns * rowCount div MaxBindVars + 1)) leftovers)
           \<and> 1 \<le> leftovers
           \<and> leftovers \<le> rowCount div (columns * rowCount div MaxBindVars + 1)"
proof -
  define b0 where "b0 = columns * rowCount div MaxBindVars"
  define bsz where "bsz = rowCount div (b0 + 1)"
  have b0: "0 < b0 + 1" using assms(1) by (simp add: b0_def)
  have "bsz * (b0 + 1) \<le> rowCount" using div_bounds(1)[OF b0, of rowCount] by (simp add: bsz_def)
  then have l0: "bsz \<le> rowCount - bsz * b0" by (simp add: algebra_simps)
  have "1 \<le> bsz" using assms(2) by (simp add: bsz_def b0_def)
  from rebalance_terminates[OF this, of b0 "rowCount - bsz * b0"] l0
  obtain b l where "rebalance b0 (rowCount - bsz * b0) bsz = Some (b, l)" "l \<le> bsz" "1 \<le> l"
    by blast
  then show ?thesis using assms(1)
    by (simp add: planning_def Let_def b0_def[symmetric] bsz_def[symmetric])
qed

theorem leftover_nonempty_when_split_witness:
  "1 \<le> (21845::int) * 3 div MaxBindVars \<and> 1 \<le> (3::int) div (21845 * 3 div MaxBindVars + 1)
   \<and> planning 21845 3 = Some (Split 2 1 1)"
  using leftover_nonempty_when_split[of 21845 3]
  by (simp add: MaxBindVars_def planning_def rebalance.simps)

text \<open>
  C7: in every plan that is produced, the regular batches all have the size
  \<^verbatim>\<open>batchSize\<close> and the final batch is not larger. Without a split there is no regular
  batch and the only batch holds every row.
\<close>

theorem regular_batches_equal_final_not_larger:
  assumes "0 \<le> rowCount" and "planning columns rowCount = Some p"
  shows "case p of
           Single leftovers \<Rightarrow> plan_sizes p = [rowCount]
         | Split batches batchSize leftovers \<Rightarrow>
             plan_sizes p = replicate (nat batches) batchSize @ [leftovers]
             \<and> 1 \<le> batches \<and> leftovers \<le> batchSize
             \<and> batchSize = rowCount div (columns * rowCount div MaxBindVars + 1)"
proof (cases p)
  case (Single l)
  with planning_Single(1)[of columns rowCount l] assms show ?thesis by simp
next
  case (Split b bsz l)
  with planning_Split[of columns rowCount b bsz l] assms show ?thesis by simp
qed

theorem regular_batches_equal_final_not_larger_witness:
  "planning 21845 3 = Some (Split 2 1 1) \<and> plan_sizes (Split 2 1 1) = [1, 1, 1]
   \<and> planning 3 10 = Some (Single 10)"
proof -
  have p: "planning 21845 3 = Some (Split 2 1 1)"
    by (simp add: MaxBindVars_def planning_def rebalance.simps)
  have r: "replicate (nat 2) (1::int) = [1, 1]"
    by (simp add: numeral_2_eq_2)
  have q: "planning 3 10 = Some (Single 10)"
    by (simp add: MaxBindVars_def planning_def)
  from regular_batches_equal_final_not_larger[of 3 21845 "Split 2 1 1"] p q r
  show ?thesis by simp
qed

text \<open>
  C2: in every plan that is produced, each batch, the final one included, carries at most
  \<^verbatim>\<open>MaxBindVars\<close> bind parameters: its size times the number of columns stays within
  65535.
\<close>

theorem batch_bind_parameters_bounded:
  assumes "0 \<le> rowCount" and "1 \<le> columns" and "planning columns rowCount = Some p"
  shows "\<forall>n \<in> set (plan_sizes p). 0 \<le> n \<and> n * columns \<le> MaxBindVars"
proof (cases p)
  case (Single l)
  have M: "0 < MaxBindVars" by (simp add: MaxBindVars_def)
  from Single planning_Single[of columns rowCount l] assms
  have l: "l = rowCount" and d: "columns * rowCount div MaxBindVars \<le> 0" by simp_all
  have "columns * rowCount < (columns * rowCount div MaxBindVars + 1) * MaxBindVars"
    by (rule div_bounds(2)[OF M])
  also have "\<dots> \<le> 1 * MaxBindVars" using d M by (intro mult_right_mono) simp_all
  finally show ?thesis using Single l assms(1) by (simp add: mult.commute)
next
  case (Split b bsz l)
  from planning_Split[of columns rowCount b bsz l] Split assms
  have f: "1 \<le> bsz" "1 \<le> l" "l \<le> bsz" "columns * bsz < MaxBindVars" by simp_all
  have "l * columns \<le> bsz * columns" using f(3) assms(2) by (simp add: mult_right_mono)
  with f Split show ?thesis by (auto simp: mult.commute)
qed

theorem batch_bind_parameters_bounded_witness:
  "planning 21845 3 = Some (Split 2 1 1)
   \<and> list_all (\<lambda>n. 0 \<le> n \<and> n * 21845 \<le> MaxBindVars) (plan_sizes (Split 2 1 1))"
proof -
  have p: "planning 21845 3 = Some (Split 2 1 1)"
    by (simp add: MaxBindVars_def planning_def rebalance.simps)
  have "\<forall>n \<in> set (plan_sizes (Split 2 1 1)). 0 \<le> n \<and> n * 21845 \<le> MaxBindVars"
    by (rule batch_bind_parameters_bounded[OF _ _ p]) simp_all
  with p show ?thesis unfolding list_all_iff by blast
qed

section \<open>The row ranges of the batches\<close>

lemma those_map_Some: "those (map Some xs) = Some xs"
  by (induction xs) simp_all

lemma those_snoc_Some: "those xs = Some ys \<Longrightarrow> those (xs @ [Some y]) = Some (ys @ [y])"
  by (induction xs arbitrary: ys) (auto split: option.splits)

lemma slice_in_range:
  "0 \<le> lo \<Longrightarrow> lo \<le> hi \<Longrightarrow> hi \<le> int (length xs) \<Longrightarrow>
   slice xs lo hi = Some (take (nat (hi - lo)) (drop (nat lo) xs))"
  by (simp add: slice_def)

lemma regular_slices:
  assumes "0 \<le> bsz" and "int n * bsz \<le> int (length rows)"
  shows "map (\<lambda>i. slice rows (int i * bsz) (int i * bsz + bsz)) [0..<n]
         = map Some (map (\<lambda>i. take (nat bsz) (drop (i * nat bsz) rows)) [0..<n])"
proof -
  have "slice rows (int i * bsz) (int i * bsz + bsz) = Some (take (nat bsz) (drop (i * nat bsz) rows))"
    if "i < n" for i
  proof -
    have "int i * bsz + bsz = (int i + 1) * bsz" by (simp add: algebra_simps)
    also have "\<dots> \<le> int n * bsz" using that assms(1) by (intro mult_right_mono) simp_all
    finally have hi: "int i * bsz + bsz \<le> int (length rows)" using assms(2) by simp
    have lo: "0 \<le> int i * bsz" using assms(1) by simp
    have n: "nat (int i * bsz) = i * nat bsz" using assms(1) by (simp add: nat_mult_distrib)
    show ?thesis using slice_in_range[OF lo _ hi] assms(1) n by simp
  qed
  then show ?thesis by simp
qed



lemma nat_plan_sum:
  assumes "0 \<le> bsz" and "0 \<le> b" and "0 \<le> l" and "b * bsz + l = int (length rows)"
  shows "nat b * nat bsz + nat l = length rows"
proof -
  have "int (nat b * nat bsz + nat l) = int (length rows)" using assms by simp
  then show ?thesis by (simp only: int_int_eq)
qed

lemma batchRows_Split:
  assumes "1 \<le> bsz" and "0 \<le> b" and "0 \<le> l" and "b * bsz + l = int (length rows)"
  shows "batchRows (Split b bsz l) rows
         = Some (map (\<lambda>i. take (nat bsz) (drop (i * nat bsz) rows)) [0..<nat b]
                 @ [drop (nat b * nat bsz) rows])"
proof -
  have le: "int (nat b) * bsz \<le> int (length rows)" using assms by simp
  have r: "map (\<lambda>i. slice rows (int i * bsz) (int i * bsz + bsz)) [0..<nat b]
           = map Some (map (\<lambda>i. take (nat bsz) (drop (i * nat bsz) rows)) [0..<nat b])"
    by (rule regular_slices) (use assms le in simp_all)
  have lo: "int (length rows) - l = b * bsz" using assms(4) by simp
  have n: "nat b * nat bsz + nat l = length rows"
    by (rule nat_plan_sum) (use assms in simp_all)
  have hi: "int (length rows) - b * bsz = l" using assms(4) by simp
  have "0 \<le> b * bsz" using assms by simp
  then have "slice rows (int (length rows) - l) (int (length rows))
             = Some (take (nat l) (drop (nat b * nat bsz) rows))"
    using assms by (simp add: slice_def lo hi nat_mult_distrib)
  moreover have "length (drop (nat b * nat bsz) rows) \<le> nat l" using n by simp
  ultimately have f: "slice rows (int (length rows) - l) (int (length rows))
             = Some (drop (nat b * nat bsz) rows)" by simp
  show ?thesis
    by (simp only: batchRows.simps r f those_snoc_Some[OF those_map_Some])
qed

section \<open>What one call of Exec does\<close>

lemma prepare_cases:
  "(\<exists>tx e. dbPrepare (DB s) h tx = Some e
      \<and> prepare s h count = (s\<lparr>stmt := None\<rparr>, h @ [PrepareFailed tx e], Some e))
   \<or> (\<exists>q. prepare s h count = (s\<lparr>stmt := Some q\<rparr>, h @ [Prepared q], None))"
  by (cases "dbPrepare (DB s) h (Replace1 (SQL s) ''<values>'' (valuePlaceholders s count))")
     (auto simp: prepare_def Let_def)

lemma execBatches_shape:
  assumes "stmt s = Some q" and "0 \<le> i" and "i \<le> b" and "0 \<le> bsz"
    and "b * bsz \<le> int (length rows)"
  shows "\<exists>ress fl st.
          execBatches s h rows bsz b i =
            (s\<lparr>result := foldl add (result s) ress\<rparr>,
             h @ map (\<lambda>(k, res). Executed q (concat (take (nat bsz) (drop (k * nat bsz) rows))) res)
                   (zip [nat i..<nat i + length ress] ress) @ fl, st)
          \<and> ((st = Done \<and> fl = [] \<and> nat i + length ress = nat b)
             \<or> (\<exists>e. st = Failed e \<and> nat i + length ress < nat b
                  \<and> fl = [ExecFailed q
                     (concat (take (nat bsz) (drop ((nat i + length ress) * nat bsz) rows))) e]
                  \<and> stmtExec (DB s)
                       (h @ map (\<lambda>(k, res). Executed q
                                  (concat (take (nat bsz) (drop (k * nat bsz) rows))) res)
                              (zip [nat i..<nat i + length ress] ress))
                       q (concat (take (nat bsz) (drop ((nat i + length ress) * nat bsz) rows)))
                     = Inl e))"
  using assms
proof (induction s h rows bsz b i rule: execBatches.induct)
  case (1 s h rows bsz b i)
  let ?chunk = "\<lambda>k. take (nat bsz) (drop (k * nat bsz) rows)"
  show ?case
  proof (cases "i < b")
    case False
    with "1.prems" have "i = b" by simp
    then have "execBatches s h rows bsz b i = (s, h, Done)"
      by (subst execBatches.simps) simp
    then show ?thesis using \<open>i = b\<close>
      by (intro exI[of _ "[]"] exI[of _ Done]) simp
  next
    case True
    have "(i + 1) * bsz \<le> b * bsz" using True "1.prems" by (intro mult_right_mono) simp_all
    then have hi: "i * bsz + bsz \<le> int (length rows)" using "1.prems" by (simp add: algebra_simps)
    have lo: "0 \<le> i * bsz" using "1.prems" by simp
    have n: "nat (i * bsz) = nat i * nat bsz" using "1.prems" by (simp add: nat_mult_distrib)
    have sl: "slice rows (i * bsz) (i * bsz + bsz) = Some (?chunk (nat i))"
      using slice_in_range[OF lo _ hi] "1.prems" n by simp
    show ?thesis
    proof (cases "stmtExec (DB s) h q (concat (?chunk (nat i)))")
      case (Inl e)
      have "execBatches s h rows bsz b i
            = (s, h @ [ExecFailed q (concat (?chunk (nat i))) e], Failed e)"
        using True sl Inl "1.prems"(1) by (subst execBatches.simps) simp
      then show ?thesis using True "1.prems" Inl
        by (intro exI[of _ "[]"] exI[of _ "Failed e"]
            exI[of _ "[ExecFailed q (concat (?chunk (nat i))) e]"]) simp
    next
      case (Inr res)
      let ?s = "s\<lparr>result := add (result s) res\<rparr>"
      let ?h = "h @ [Executed q (concat (?chunk (nat i))) res]"
      have step: "execBatches s h rows bsz b i = execBatches ?s ?h rows bsz b (i + 1)"
        using True sl Inr "1.prems"(1) by (subst execBatches.simps) simp
      have "\<exists>ress fl st.
          execBatches ?s ?h rows bsz b (i + 1) =
            (?s\<lparr>result := foldl add (result ?s) ress\<rparr>,
             ?h @ map (\<lambda>(k, res). Executed q (concat (?chunk k)) res)
                   (zip [nat (i + 1)..<nat (i + 1) + length ress] ress) @ fl, st)
          \<and> ((st = Done \<and> fl = [] \<and> nat (i + 1) + length ress = nat b)
             \<or> (\<exists>e. st = Failed e \<and> nat (i + 1) + length ress < nat b
                  \<and> fl = [ExecFailed q
                     (concat (?chunk (nat (i + 1) + length ress))) e]
                  \<and> stmtExec (DB ?s)
                       (?h @ map (\<lambda>(k, res). Executed q (concat (?chunk k)) res)
                              (zip [nat (i + 1)..<nat (i + 1) + length ress] ress))
                       q (concat (?chunk (nat (i + 1) + length ress)))
                     = Inl e))"
        by (rule "1.IH"[OF True sl _ Inr]) (use True "1.prems" in simp_all)
      then obtain ress fl st where r:
        "execBatches ?s ?h rows bsz b (i + 1) =
            (?s\<lparr>result := foldl add (result ?s) ress\<rparr>,
             ?h @ map (\<lambda>(k, res). Executed q (concat (?chunk k)) res)
                   (zip [nat (i + 1)..<nat (i + 1) + length ress] ress) @ fl, st)"
        "(st = Done \<and> fl = [] \<and> nat (i + 1) + length ress = nat b)
             \<or> (\<exists>e. st = Failed e \<and> nat (i + 1) + length ress < nat b
                  \<and> fl = [ExecFailed q
                     (concat (?chunk (nat (i + 1) + length ress))) e]
                  \<and> stmtExec (DB ?s)
                       (?h @ map (\<lambda>(k, res). Executed q (concat (?chunk k)) res)
                              (zip [nat (i + 1)..<nat (i + 1) + length ress] ress))
                       q (concat (?chunk (nat (i + 1) + length ress)))
                     = Inl e)"
        by blast
      have i1: "nat (i + 1) = Suc (nat i)" using "1.prems" by simp
      have z: "zip [nat i..<nat i + length (res # ress)] (res # ress)
               = (nat i, res) # zip [nat (i + 1)..<nat (i + 1) + length ress] ress"
        by (subst upt_rec) (simp add: i1 del: upt_Suc)
      show ?thesis
      proof (intro exI[of _ "res # ress"] exI[of _ fl] exI[of _ st] conjI)
        show "execBatches s h rows bsz b i =
          (s\<lparr>result := foldl add (result s) (res # ress)\<rparr>,
           h @ map (\<lambda>(k, res). Executed q (concat (?chunk k)) res)
                 (zip [nat i..<nat i + length (res # ress)] (res # ress)) @ fl, st)"
          by (simp only: step r(1) z) simp
        show "(st = Done \<and> fl = [] \<and> nat i + length (res # ress) = nat b)
             \<or> (\<exists>e. st = Failed e \<and> nat i + length (res # ress) < nat b
                  \<and> fl = [ExecFailed q
                     (concat (?chunk (nat i + length (res # ress)))) e]
                  \<and> stmtExec (DB s)
                       (h @ map (\<lambda>(k, res). Executed q (concat (?chunk k)) res)
                              (zip [nat i..<nat i + length (res # ress)] (res # ress)))
                       q (concat (?chunk (nat i + length (res # ress))))
                     = Inl e)"
          using r(2) i1 by (simp only: z) simp
      qed
    qed
  qed
qed

lemma results_of_append: "results_of (t @ u) = results_of t @ results_of u"
  by (induction t rule: results_of.induct) simp_all

lemma args_of_append: "args_of (t @ u) = args_of t @ args_of u"
  by (induction t rule: args_of.induct) simp_all

lemma results_of_execs:
  "length ks = length ress \<Longrightarrow>
   results_of (map (\<lambda>(k, res). Executed q (f k) res) (zip ks ress)) = ress"
  by (induction ks ress rule: list_induct2) simp_all

lemma args_of_execs:
  "length ks = length ress \<Longrightarrow>
   args_of (map (\<lambda>(k, res). Executed q (f k) res) (zip ks ress)) = map f ks"
  by (induction ks ress rule: list_induct2) simp_all

lemma filter_execs:
  "filter is_prepare (map (\<lambda>(k, res). Executed q (f k) res) zs) = []"
  "filter is_failure (map (\<lambda>(k, res). Executed q (f k) res) zs) = []"
  "filter is_close (map (\<lambda>(k, res). Executed q (f k) res) zs) = []"
  "filter is_exec (map (\<lambda>(k, res). Executed q (f k) res) zs)
     = map (\<lambda>(k, res). Executed q (f k) res) zs"
  by (induction zs) (auto split: prod.splits)

lemma scoped_execs:
  "scoped (Some q) (map (\<lambda>(k, res). Executed q (f k) res) zs @ u) = scoped (Some q) u"
  by (induction zs) (auto split: prod.splits)

lemma scoped_append_None:
  "scoped cur t \<Longrightarrow> scoped None u \<Longrightarrow> scoped cur (t @ u)"
  by (induction cur t rule: scoped.induct) simp_all

lemma Exec_planning:
  "Exec s h rows =
     (case planning (int (length (Casts s))) (int (length rows)) of
        None \<Rightarrow> None
      | Some (Single l) \<Rightarrow> Some (execFinal s h rows l)
      | Some (Split b bsz l) \<Rightarrow>
          (case execRegular s h rows bsz b of
             (s1, h1, Panicked) \<Rightarrow> Some (s1, h1, Panic)
           | (s1, h1, Failed err) \<Rightarrow> Some (s1, h1, Return (result s1) (Some err))
           | (s1, h1, Done) \<Rightarrow> Some (execFinal s1 h1 rows l)))"
  by (simp add: Exec_def planning_def Let_def split: option.splits prod.splits)

text \<open>The three ways the closure can end.\<close>

lemma execRegular_cases:
  assumes "1 \<le> b" and "0 \<le> bsz" and "b * bsz \<le> int (length rows)"
  shows
   "(\<exists>tx e. dbPrepare (DB s) h tx = Some e \<and> execRegular s h rows bsz b
        = (s\<lparr>stmt := None\<rparr>, h @ [PrepareFailed tx e], Failed e))
    \<or> (\<exists>q ress e. length ress < nat b
        \<and> stmtExec (DB s)
             (h @ Prepared q
                # map (\<lambda>(k, res). Executed q
                         (concat (take (nat bsz) (drop (k * nat bsz) rows))) res)
                    (zip [0..<length ress] ress))
             q (concat (take (nat bsz) (drop (length ress * nat bsz) rows))) = Inl e
        \<and> execRegular s h rows bsz b
        = (s\<lparr>stmt := Some q, result := foldl add (result s) ress\<rparr>,
           h @ Prepared q
             # map (\<lambda>(k, res). Executed q (concat (take (nat bsz) (drop (k * nat bsz) rows))) res)
                 (zip [0..<length ress] ress)
             @ [ExecFailed q (concat (take (nat bsz) (drop (length ress * nat bsz) rows))) e,
                Closed q],
           Failed e))
    \<or> (\<exists>q ress. length ress = nat b \<and> execRegular s h rows bsz b
        = (s\<lparr>stmt := Some q, result := foldl add (result s) ress\<rparr>,
           h @ Prepared q
             # map (\<lambda>(k, res). Executed q (concat (take (nat bsz) (drop (k * nat bsz) rows))) res)
                 (zip [0..<length ress] ress)
             @ [Closed q],
           Done))"
proof -
  from prepare_cases[of s h bsz] show ?thesis
  proof (elim disjE exE)
    fix tx e
    assume "dbPrepare (DB s) h tx = Some e
      \<and> prepare s h bsz = (s\<lparr>stmt := None\<rparr>, h @ [PrepareFailed tx e], Some e)"
    then have "dbPrepare (DB s) h tx = Some e \<and> execRegular s h rows bsz b
        = (s\<lparr>stmt := None\<rparr>, h @ [PrepareFailed tx e], Failed e)"
      by (simp add: execRegular_def)
    then show ?thesis by blast
  next
    fix q
    assume pr: "prepare s h bsz = (s\<lparr>stmt := Some q\<rparr>, h @ [Prepared q], None)"
    let ?s = "s\<lparr>stmt := Some q\<rparr>"
    let ?Ex = "\<lambda>(k, res). Executed q (concat (take (nat bsz) (drop (k * nat bsz) rows))) res"
    from execBatches_shape[of ?s q 0 b bsz rows "h @ [Prepared q]"] assms
    obtain ress fl st where r:
      "execBatches ?s (h @ [Prepared q]) rows bsz b 0 =
         (?s\<lparr>result := foldl add (result ?s) ress\<rparr>,
          (h @ [Prepared q]) @ map ?Ex (zip [nat 0..<nat 0 + length ress] ress) @ fl, st)"
      "(st = Done \<and> fl = [] \<and> nat 0 + length ress = nat b)
        \<or> (\<exists>e. st = Failed e \<and> nat 0 + length ress < nat b
             \<and> fl = [ExecFailed q
                  (concat (take (nat bsz) (drop ((nat 0 + length ress) * nat bsz) rows))) e]
             \<and> stmtExec (DB ?s)
                  ((h @ [Prepared q]) @ map ?Ex (zip [nat 0..<nat 0 + length ress] ress))
                  q (concat (take (nat bsz) (drop ((nat 0 + length ress) * nat bsz) rows)))
                = Inl e)"
      by auto
    have er: "execRegular s h rows bsz b =
         (?s\<lparr>result := foldl add (result ?s) ress\<rparr>,
          ((h @ [Prepared q]) @ map ?Ex (zip [nat 0..<nat 0 + length ress] ress) @ fl)
            @ [Closed q], st)"
      by (simp add: execRegular_def pr r(1))
    from er have er': "execRegular s h rows bsz b =
         (s\<lparr>stmt := Some q, result := foldl add (result s) ress\<rparr>,
          h @ Prepared q # map ?Ex (zip [0..<length ress] ress) @ fl @ [Closed q], st)"
      by simp
    from r(2) show ?thesis
    proof (elim disjE exE conjE)
      assume "st = Done" "fl = []" "nat 0 + length ress = nat b"
      with er' show ?thesis
        by (intro disjI2 exI[of _ q] exI[of _ ress]) simp
    next
      fix e
      assume "st = Failed e" "nat 0 + length ress < nat b"
        "fl = [ExecFailed q
                  (concat (take (nat bsz) (drop ((nat 0 + length ress) * nat bsz) rows))) e]"
        "stmtExec (DB ?s)
                  ((h @ [Prepared q]) @ map ?Ex (zip [nat 0..<nat 0 + length ress] ress))
                  q (concat (take (nat bsz) (drop ((nat 0 + length ress) * nat bsz) rows)))
                = Inl e"
      with er' show ?thesis
        by (intro disjI2 disjI1 exI[of _ q] exI[of _ ress] exI[of _ e]) simp
    qed
  qed
qed

lemma execFinal_cases:
  assumes "0 \<le> l" and "l \<le> int (length rows)"
  shows
   "(\<exists>tx e. dbPrepare (DB s) h tx = Some e \<and> execFinal s h rows l
        = (s\<lparr>stmt := None\<rparr>, h @ [PrepareFailed tx e], Return (result s) (Some e)))
    \<or> (\<exists>q e.
         stmtExec (DB s) (h @ [Prepared q]) q (concat (drop (length rows - nat l) rows)) = Inl e
       \<and> execFinal s h rows l
        = (s\<lparr>stmt := Some q\<rparr>,
           h @ [Prepared q, ExecFailed q (concat (drop (length rows - nat l) rows)) e, Closed q],
           Return (result s) (Some e)))
    \<or> (\<exists>q res. execFinal s h rows l
        = (s\<lparr>stmt := Some q, result := add (result s) res\<rparr>,
           h @ [Prepared q, Executed q (concat (drop (length rows - nat l) rows)) res, Closed q],
           Return (add (result s) res) None))"
proof -
  have n: "nat (int (length rows) - l) = length rows - nat l" using assms by simp
  have sl: "slice rows (int (length rows) - l) (int (length rows))
            = Some (drop (length rows - nat l) rows)"
    using assms by (simp add: slice_def n)
  from prepare_cases[of s h l] show ?thesis
  proof (elim disjE exE)
    fix tx e
    assume "dbPrepare (DB s) h tx = Some e
      \<and> prepare s h l = (s\<lparr>stmt := None\<rparr>, h @ [PrepareFailed tx e], Some e)"
    then have "dbPrepare (DB s) h tx = Some e \<and> execFinal s h rows l
        = (s\<lparr>stmt := None\<rparr>, h @ [PrepareFailed tx e], Return (result s) (Some e))"
      by (simp add: execFinal_def)
    then show ?thesis by blast
  next
    fix q
    assume pr: "prepare s h l = (s\<lparr>stmt := Some q\<rparr>, h @ [Prepared q], None)"
    show ?thesis
    proof (cases "stmtExec (DB s) (h @ [Prepared q]) q (concat (drop (length rows - nat l) rows))")
      case (Inl e)
      then have "stmtExec (DB s) (h @ [Prepared q]) q
                   (concat (drop (length rows - nat l) rows)) = Inl e
        \<and> execFinal s h rows l
        = (s\<lparr>stmt := Some q\<rparr>,
           h @ [Prepared q, ExecFailed q (concat (drop (length rows - nat l) rows)) e, Closed q],
           Return (result s) (Some e))"
        by (simp add: execFinal_def pr sl)
      then show ?thesis by blast
    next
      case (Inr res)
      then have "execFinal s h rows l
        = (s\<lparr>stmt := Some q, result := add (result s) res\<rparr>,
           h @ [Prepared q, Executed q (concat (drop (length rows - nat l) rows)) res, Closed q],
           Return (add (result s) res) None)"
        by (simp add: execFinal_def pr sl)
      then show ?thesis by blast
    qed
  qed
qed

lemma batchRows_of_plan:
  assumes "planning (int (length casts)) (int (length rows)) = Some p"
  shows "case p of
           Single l \<Rightarrow> l = int (length rows) \<and> batchRows p rows = Some [rows]
         | Split b bsz l \<Rightarrow>
             1 \<le> b \<and> 1 \<le> bsz \<and> 1 \<le> l \<and> l \<le> bsz
             \<and> b * bsz + l = int (length rows)
             \<and> nat b * nat bsz + nat l = length rows
             \<and> batchRows p rows
                 = Some (map (\<lambda>i. take (nat bsz) (drop (i * nat bsz) rows)) [0..<nat b]
                         @ [drop (nat b * nat bsz) rows])"
proof (cases p)
  case (Single l)
  with planning_Single(1)[of "int (length casts)" "int (length rows)" l] assms
  have "l = int (length rows)" by simp
  with Single show ?thesis by (simp add: slice_def)
next
  case (Split b bsz l)
  from planning_Split[of "int (length casts)" "int (length rows)" b bsz l] Split assms
  have f: "1 \<le> b" "1 \<le> bsz" "1 \<le> l" "l \<le> bsz" "b * bsz + l = int (length rows)"
    by simp_all
  have br: "batchRows (Split b bsz l) rows
            = Some (map (\<lambda>i. take (nat bsz) (drop (i * nat bsz) rows)) [0..<nat b]
                 @ [drop (nat b * nat bsz) rows])"
    by (rule batchRows_Split) (use f in simp_all)
  have n: "nat b * nat bsz + nat l = length rows"
    by (rule nat_plan_sum) (use f in simp_all)
  show ?thesis using Split f br n by simp
qed

lemma Exec_run:
  assumes p: "planning (int (length (Casts s))) (int (length rows)) = Some p"
  shows "\<exists>bs s' t res err.
      batchRows p rows = Some bs \<and> length bs = length (plan_sizes p)
    \<and> Exec s h rows = Some (s', h @ t, Return res err)
    \<and> result s' = res
    \<and> res = foldl add (result s) (results_of t)
    \<and> args_of t = map concat (take (length (results_of t)) bs)
    \<and> scoped None t
    \<and> length (filter is_prepare t) \<le> 2
    \<and> length (filter is_exec t) \<le> length bs
    \<and> (case err of
         None \<Rightarrow>
           filter is_failure t = [] \<and> length (results_of t) = length bs
           \<and> length (filter is_exec t) = length bs
           \<and> length (filter is_prepare t) = (case p of Single l \<Rightarrow> 1 | Split b bsz l \<Rightarrow> 2)
           \<and> (case p of
                Single l \<Rightarrow>
                  (\<exists>q r. t = [Prepared q, Executed q (concat (last bs)) r, Closed q])
              | Split b bsz l \<Rightarrow>
                  (\<exists>q ress q' r. length ress = length (butlast bs)
                     \<and> t = Prepared q
                           # map (\<lambda>(rs, r). Executed q (concat rs) r) (zip (butlast bs) ress)
                           @ [Closed q, Prepared q', Executed q' (concat (last bs)) r, Closed q']))
       | Some e \<Rightarrow>
           length (results_of t) < length bs
           \<and> (\<exists>pre f post. t = pre @ f # post \<and> filter is_failure pre = []
                \<and> list_all is_close post
                \<and> ((\<exists>tx. f = PrepareFailed tx e \<and> dbPrepare (DB s) (h @ pre) tx = Some e)
                   \<or> (\<exists>q. f = ExecFailed q (concat (bs ! length (results_of t))) e
                        \<and> stmtExec (DB s) (h @ pre) q (concat (bs ! length (results_of t)))
                            = Inl e))))"
proof -
  define Q where "Q = (\<lambda>(bs :: 'a list list list) (s' :: 'a Insert) (t :: 'a event list) res err.
      result s' = res
    \<and> res = foldl add (result s) (results_of t)
    \<and> args_of t = map concat (take (length (results_of t)) bs)
    \<and> scoped None t
    \<and> length (filter is_prepare t) \<le> 2
    \<and> length (filter is_exec t) \<le> length bs
    \<and> (case err of
         None \<Rightarrow>
           filter is_failure t = [] \<and> length (results_of t) = length bs
           \<and> length (filter is_exec t) = length bs
           \<and> length (filter is_prepare t) = (case p of Single l \<Rightarrow> 1 | Split b bsz l \<Rightarrow> 2)
           \<and> (case p of
                Single l \<Rightarrow>
                  (\<exists>q r. t = [Prepared q, Executed q (concat (last bs)) r, Closed q])
              | Split b bsz l \<Rightarrow>
                  (\<exists>q ress q' r. length ress = length (butlast bs)
                     \<and> t = Prepared q
                           # map (\<lambda>(rs, r). Executed q (concat rs) r) (zip (butlast bs) ress)
                           @ [Closed q, Prepared q', Executed q' (concat (last bs)) r, Closed q']))
       | Some e \<Rightarrow>
           length (results_of t) < length bs
           \<and> (\<exists>pre f post. t = pre @ f # post \<and> filter is_failure pre = []
                \<and> list_all is_close post
                \<and> ((\<exists>tx. f = PrepareFailed tx e \<and> dbPrepare (DB s) (h @ pre) tx = Some e)
                   \<or> (\<exists>q. f = ExecFailed q (concat (bs ! length (results_of t))) e
                        \<and> stmtExec (DB s) (h @ pre) q (concat (bs ! length (results_of t)))
                            = Inl e)))))"
  have QF: "Q bs s' t res (Some e)"
    if "result s' = res" and "res = foldl add (result s) (results_of t)"
      and "args_of t = map concat (take (length (results_of t)) bs)"
      and "scoped None t" and "length (filter is_prepare t) \<le> 2"
      and "length (filter is_exec t) \<le> length bs"
      and "length (results_of t) < length bs"
      and "t = pre @ f # post" and "filter is_failure pre = []"
      and "list_all is_close post"
      and "(\<exists>tx. f = PrepareFailed tx e \<and> dbPrepare (DB s) (h @ pre) tx = Some e)
           \<or> (\<exists>q. f = ExecFailed q (concat (bs ! length (results_of t))) e
                \<and> stmtExec (DB s) (h @ pre) q (concat (bs ! length (results_of t))) = Inl e)"
    for bs s' t res e pre f post
    unfolding Q_def using that by (simp only: option.case) blast
  have QS: "Q bs s' t res None"
    if "result s' = res" and "res = foldl add (result s) (results_of t)"
      and "args_of t = map concat (take (length (results_of t)) bs)"
      and "scoped None t" and "length (filter is_prepare t) \<le> 2"
      and "filter is_failure t = []" and "length (results_of t) = length bs"
      and "length (filter is_exec t) = length bs"
      and "length (filter is_prepare t) = (case p of Single l \<Rightarrow> 1 | Split b bsz l \<Rightarrow> 2)"
      and "case p of
                Single l \<Rightarrow>
                  (\<exists>q r. t = [Prepared q, Executed q (concat (last bs)) r, Closed q])
              | Split b bsz l \<Rightarrow>
                  (\<exists>q ress q' r. length ress = length (butlast bs)
                     \<and> t = Prepared q
                           # map (\<lambda>(rs, r). Executed q (concat rs) r) (zip (butlast bs) ress)
                           @ [Closed q, Prepared q', Executed q' (concat (last bs)) r, Closed q'])"
    for bs s' t res
    unfolding Q_def using that by (simp only: option.case) simp
  have "\<exists>bs s' t res err. batchRows p rows = Some bs \<and> length bs = length (plan_sizes p)
      \<and> Exec s h rows = Some (s', h @ t, Return res err) \<and> Q bs s' t res err"
  proof (cases p)
    case (Single l)
    note c = batchRows_of_plan[OF p, unfolded Single plan.case]
    from c have l: "l = int (length rows)" by (rule conjunct1)
    from c have bs: "batchRows p rows = Some [rows]" unfolding Single by (rule conjunct2)
    have ex: "Exec s h rows = Some (execFinal s h rows l)"
      using p Single by (simp add: Exec_planning)
    have sz: "length [rows] = length (plan_sizes p)" using Single by simp
    have "0 \<le> l" "l \<le> int (length rows)" using l by simp_all
    from execFinal_cases[OF this, of s h]
    show ?thesis
    proof (elim disjE exE conjE)
      fix tx e
      assume d: "dbPrepare (DB s) h tx = Some e"
        and a: "execFinal s h rows l
        = (s\<lparr>stmt := None\<rparr>, h @ [PrepareFailed tx e], Return (result s) (Some e))"
      have "Q [rows] (s\<lparr>stmt := None\<rparr>) [PrepareFailed tx e] (result s) (Some e)"
        by (rule QF[where pre = "[]" and f = "PrepareFailed tx e" and post = "[]"])
           (use d in simp_all)
      with bs ex a sz show ?thesis by auto
    next
      fix q e
      assume d: "stmtExec (DB s) (h @ [Prepared q]) q
                   (concat (drop (length rows - nat l) rows)) = Inl e"
        and a: "execFinal s h rows l
        = (s\<lparr>stmt := Some q\<rparr>,
           h @ [Prepared q, ExecFailed q (concat (drop (length rows - nat l) rows)) e, Closed q],
           Return (result s) (Some e))"
      have "Q [rows] (s\<lparr>stmt := Some q\<rparr>)
              [Prepared q, ExecFailed q (concat (drop (length rows - nat l) rows)) e, Closed q]
              (result s) (Some e)"
        by (rule QF[where pre = "[Prepared q]" and f = "ExecFailed q (concat rows) e"
              and post = "[Closed q]"])
           (use d l in simp_all)
      with bs ex a sz show ?thesis by auto
    next
      fix q res
      assume a: "execFinal s h rows l
        = (s\<lparr>stmt := Some q, result := add (result s) res\<rparr>,
           h @ [Prepared q, Executed q (concat (drop (length rows - nat l) rows)) res, Closed q],
           Return (add (result s) res) None)"
      have "Q [rows] (s\<lparr>stmt := Some q, result := add (result s) res\<rparr>)
              [Prepared q, Executed q (concat (drop (length rows - nat l) rows)) res, Closed q]
              (add (result s) res) None"
        unfolding Q_def using l Single by simp
      with bs ex a sz show ?thesis by auto
    qed
  next
    case (Split b bsz l)
    let ?chunk = "\<lambda>k. take (nat bsz) (drop (k * nat bsz) rows)"
    let ?fin = "drop (nat b * nat bsz) rows"
    let ?bs = "map ?chunk [0..<nat b] @ [?fin]"
    note c = batchRows_of_plan[OF p, unfolded Split plan.case]
    from c have f: "1 \<le> b" "1 \<le> bsz" "1 \<le> l" "l \<le> bsz"
      and ni: "b * bsz + l = int (length rows)"
      and n: "nat b * nat bsz + nat l = length rows" by blast+
    from c have bs: "batchRows p rows = Some ?bs" unfolding Split by blast
    have "length rows - nat l = nat b * nat bsz" using n by linarith
    then have fin: "drop (length rows - nat l) rows = ?fin" by (simp only:)
    have lb: "length ?bs = Suc (nat b)" by simp
    have sz: "length ?bs = length (plan_sizes p)" using Split by simp
    have tk: "take k ?bs = map ?chunk [0..<k]" if "k \<le> nat b" for k
      using that by (simp add: take_map min_def)
    have nth: "?bs ! k = ?chunk k" if "k < nat b" for k
      using that by (simp add: nth_append)
    have nthb: "?bs ! nat b = ?fin" by (simp add: nth_append)
    have "0 \<le> b * bsz" using f by simp
    with ni f have le: "b * bsz \<le> int (length rows)"
      and lr: "0 \<le> l" "l \<le> int (length rows)" by linarith+
    have ex: "Exec s h rows =
       (case execRegular s h rows bsz b of
          (s1, h1, Panicked) \<Rightarrow> Some (s1, h1, Panic)
        | (s1, h1, Failed err) \<Rightarrow> Some (s1, h1, Return (result s1) (Some err))
        | (s1, h1, Done) \<Rightarrow> Some (execFinal s1 h1 rows l))"
      using p Split by (simp add: Exec_planning)
    have "0 \<le> bsz" using f by simp
    from execRegular_cases[OF f(1) this le, of s h]
    show ?thesis
    proof (elim disjE exE conjE)
      fix tx e
      assume d: "dbPrepare (DB s) h tx = Some e"
        and a: "execRegular s h rows bsz b
        = (s\<lparr>stmt := None\<rparr>, h @ [PrepareFailed tx e], Failed e)"
      have "Q ?bs (s\<lparr>stmt := None\<rparr>) [PrepareFailed tx e] (result s) (Some e)"
        by (rule QF[where pre = "[]" and f = "PrepareFailed tx e" and post = "[]"])
           (use d in simp_all)
      moreover have "Exec s h rows
        = Some (s\<lparr>stmt := None\<rparr>, h @ [PrepareFailed tx e], Return (result s) (Some e))"
        by (simp add: ex a)
      ultimately show ?thesis using bs sz by blast
    next
      fix q ress e
      let ?E = "map (\<lambda>(k, res). Executed q (concat (?chunk k)) res) (zip [0..<length ress] ress)"
      let ?t = "Prepared q # ?E @ [ExecFailed q (concat (?chunk (length ress))) e, Closed q]"
      let ?s = "s\<lparr>stmt := Some q, result := foldl add (result s) ress\<rparr>"
      assume k: "length ress < nat b"
        and d: "stmtExec (DB s) (h @ Prepared q # ?E) q (concat (?chunk (length ress))) = Inl e"
        and a: "execRegular s h rows bsz b = (?s, h @ ?t, Failed e)"
      have r: "results_of ?t = ress"
        by (simp add: results_of_append results_of_execs)
      have "Q ?bs ?s ?t (result ?s) (Some e)"
      proof (rule QF[where pre = "Prepared q # ?E"
            and f = "ExecFailed q (concat (?chunk (length ress))) e" and post = "[Closed q]"])
        show "args_of ?t = map concat (take (length (results_of ?t)) ?bs)"
          unfolding r tk[OF less_imp_le[OF k]]
          by (simp add: args_of_append args_of_execs)
        show "scoped None ?t" by (simp add: scoped_execs)
        show "length (filter is_prepare ?t) \<le> 2" by (simp add: filter_execs)
        show "length (filter is_exec ?t) \<le> length ?bs" using k by (simp add: filter_execs)
        show "length (results_of ?t) < length ?bs" unfolding r using k by simp
        show "filter is_failure (Prepared q # ?E) = []" by (simp add: filter_execs)
        show "(\<exists>tx. ExecFailed q (concat (?chunk (length ress))) e = PrepareFailed tx e
                  \<and> dbPrepare (DB s) (h @ Prepared q # ?E) tx = Some e)
           \<or> (\<exists>q'. ExecFailed q (concat (?chunk (length ress))) e
                    = ExecFailed q' (concat (?bs ! length (results_of ?t))) e
                \<and> stmtExec (DB s) (h @ Prepared q # ?E) q'
                     (concat (?bs ! length (results_of ?t))) = Inl e)"
          unfolding r nth[OF k] using d by blast
      qed (simp_all add: results_of_append results_of_execs)
      moreover have "Exec s h rows = Some (?s, h @ ?t, Return (result ?s) (Some e))"
        by (simp add: ex a)
      ultimately show ?thesis using bs sz by blast
    next
      fix q ress
      let ?E = "map (\<lambda>(k, res). Executed q (concat (?chunk k)) res) (zip [0..<length ress] ress)"
      let ?t1 = "Prepared q # ?E @ [Closed q]"
      let ?s1 = "s\<lparr>stmt := Some q, result := foldl add (result s) ress\<rparr>"
      assume k: "length ress = nat b"
        and a: "execRegular s h rows bsz b = (?s1, h @ ?t1, Done)"
      have ex1: "Exec s h rows = Some (execFinal ?s1 (h @ ?t1) rows l)"
        by (simp add: ex a)
      have r1: "results_of ?t1 = ress"
        by (simp add: results_of_append results_of_execs)
      have a1: "args_of ?t1 = map concat (map ?chunk [0..<nat b])"
        by (simp add: args_of_append args_of_execs k)
      have sc1: "scoped None ?t1" by (simp add: scoped_execs)
      have fp1: "filter is_prepare ?t1 = [Prepared q]" by (simp add: filter_execs)
      have fe1: "length (filter is_exec ?t1) = nat b" by (simp add: filter_execs k)
      have ff1: "filter is_failure ?t1 = []" by (simp add: filter_execs)
      from execFinal_cases[OF lr, of ?s1 "h @ ?t1"]
      show ?thesis
      proof (elim disjE exE conjE)
        fix tx e
        let ?t = "?t1 @ [PrepareFailed tx e]"
        assume d: "dbPrepare (DB ?s1) (h @ ?t1) tx = Some e"
          and b: "execFinal ?s1 (h @ ?t1) rows l
          = (?s1\<lparr>stmt := None\<rparr>, (h @ ?t1) @ [PrepareFailed tx e],
             Return (result ?s1) (Some e))"
        have r: "results_of ?t = ress" by (simp only: results_of_append r1) simp
        have "Q ?bs (?s1\<lparr>stmt := None\<rparr>) ?t (result ?s1) (Some e)"
        proof (rule QF[where pre = ?t1 and f = "PrepareFailed tx e" and post = "[]"])
          have lr: "length (results_of ?t) = nat b"
            by (rule trans[OF arg_cong[OF r, of length] k])
          have ar: "args_of ?t = map concat (map ?chunk [0..<nat b])"
            by (simp only: args_of_append a1) simp
          show "args_of ?t = map concat (take (length (results_of ?t)) ?bs)"
            by (simp only: ar lr tk[OF order_refl])
          show "scoped None ?t" by (rule scoped_append_None[OF sc1]) simp
          show "length (filter is_prepare ?t) \<le> 2" by (simp only: filter_append fp1) simp
          show "length (filter is_exec ?t) \<le> length ?bs"
            by (simp only: filter_append length_append fe1) simp
          show "length (results_of ?t) < length ?bs" by (simp only: lr lb)
          show "filter is_failure ?t1 = []" by (rule ff1)
          show "(\<exists>tx'. PrepareFailed tx e = PrepareFailed tx' e
                    \<and> dbPrepare (DB s) (h @ ?t1) tx' = Some e)
             \<or> (\<exists>q'. PrepareFailed tx e
                      = ExecFailed q' (concat (?bs ! length (results_of ?t))) e
                  \<and> stmtExec (DB s) (h @ ?t1) q'
                       (concat (?bs ! length (results_of ?t))) = Inl e)"
            using d by simp
        qed (simp_all add: results_of_append results_of_execs)
        moreover have "Exec s h rows
          = Some (?s1\<lparr>stmt := None\<rparr>, h @ ?t, Return (result ?s1) (Some e))"
          by (simp add: ex1 b)
        ultimately show ?thesis using bs sz by blast
      next
        fix q' e
        let ?t = "?t1 @ [Prepared q', ExecFailed q' (concat ?fin) e, Closed q']"
        assume d: "stmtExec (DB ?s1) ((h @ ?t1) @ [Prepared q']) q'
                     (concat (drop (length rows - nat l) rows)) = Inl e"
          and b: "execFinal ?s1 (h @ ?t1) rows l
          = (?s1\<lparr>stmt := Some q'\<rparr>,
             (h @ ?t1) @ [Prepared q',
                ExecFailed q' (concat (drop (length rows - nat l) rows)) e, Closed q'],
             Return (result ?s1) (Some e))"
        have r: "results_of ?t = ress" by (simp only: results_of_append r1) simp
        have "Q ?bs (?s1\<lparr>stmt := Some q'\<rparr>) ?t (result ?s1) (Some e)"
        proof (rule QF[where pre = "?t1 @ [Prepared q']"
              and f = "ExecFailed q' (concat ?fin) e" and post = "[Closed q']"])
          have lr: "length (results_of ?t) = nat b"
            by (rule trans[OF arg_cong[OF r, of length] k])
          have ar: "args_of ?t = map concat (map ?chunk [0..<nat b])"
            by (simp only: args_of_append a1) simp
          show "args_of ?t = map concat (take (length (results_of ?t)) ?bs)"
            by (simp only: ar lr tk[OF order_refl])
          show "scoped None ?t" by (rule scoped_append_None[OF sc1]) simp
          show "length (filter is_prepare ?t) \<le> 2" by (simp only: filter_append fp1) simp
          show "length (filter is_exec ?t) \<le> length ?bs"
            by (simp only: filter_append length_append fe1) simp
          show "length (results_of ?t) < length ?bs" by (simp only: lr lb)
          show "filter is_failure (?t1 @ [Prepared q']) = []"
            by (simp only: filter_append ff1) simp
          have "stmtExec (DB s) (h @ ?t1 @ [Prepared q']) q' (concat ?fin) = Inl e"
            using d by (simp only: fin) simp
          then show "(\<exists>tx. ExecFailed q' (concat ?fin) e = PrepareFailed tx e
                    \<and> dbPrepare (DB s) (h @ ?t1 @ [Prepared q']) tx = Some e)
             \<or> (\<exists>q''. ExecFailed q' (concat ?fin) e
                      = ExecFailed q'' (concat (?bs ! length (results_of ?t))) e
                  \<and> stmtExec (DB s) (h @ ?t1 @ [Prepared q']) q''
                       (concat (?bs ! length (results_of ?t))) = Inl e)"
            by (simp only: lr nthb) blast
        qed (simp_all add: results_of_append results_of_execs)
        moreover have "Exec s h rows
          = Some (?s1\<lparr>stmt := Some q'\<rparr>, h @ ?t, Return (result ?s1) (Some e))"
          by (simp add: ex1 b fin)
        ultimately show ?thesis using bs sz by blast
      next
        fix q' res
        let ?t = "?t1 @ [Prepared q', Executed q' (concat ?fin) res, Closed q']"
        let ?s' = "?s1\<lparr>stmt := Some q', result := add (result ?s1) res\<rparr>"
        assume b: "execFinal ?s1 (h @ ?t1) rows l
          = (?s',
             (h @ ?t1) @ [Prepared q',
                Executed q' (concat (drop (length rows - nat l) rows)) res, Closed q'],
             Return (add (result ?s1) res) None)"
        have r: "results_of ?t = ress @ [res]" by (simp only: results_of_append r1) simp
        have "Q ?bs ?s' ?t (add (result ?s1) res) None"
        proof (rule QS)
          have "length (ress @ [res]) = length ?bs" using k by simp
          then have lr: "length (results_of ?t) = length ?bs"
            by (rule trans[OF arg_cong[OF r, of length]])
          have ar: "args_of ?t = map concat ?bs"
            by (simp only: args_of_append a1) simp
          show "args_of ?t = map concat (take (length (results_of ?t)) ?bs)"
            by (simp only: ar lr take_all[OF order_refl])
          show "scoped None ?t" by (rule scoped_append_None[OF sc1]) simp
          show "length (filter is_prepare ?t) \<le> 2" by (simp only: filter_append fp1) simp
          show "length (filter is_exec ?t) = length ?bs"
            by (simp only: filter_append length_append fe1) simp
          show "length (results_of ?t) = length ?bs" by (rule lr)
          show "filter is_failure ?t = []" by (simp only: filter_append ff1) simp
          show "length (filter is_prepare ?t) = (case p of Single l \<Rightarrow> 1 | Split b bsz l \<Rightarrow> 2)"
            unfolding Split by (simp only: filter_append fp1) simp
          have bl: "butlast ?bs = map ?chunk [0..<nat b]" and la: "last ?bs = ?fin"
            by simp_all
          have ze: "map (\<lambda>(rs, r). Executed q (concat rs) r) (zip (map ?chunk [0..<nat b]) ress)
                    = ?E"
            by (simp add: zip_map1 k case_prod_unfold)
          have "length ress = length (butlast ?bs)
              \<and> ?t = Prepared q
                    # map (\<lambda>(rs, r). Executed q (concat rs) r) (zip (butlast ?bs) ress)
                    @ [Closed q, Prepared q', Executed q' (concat (last ?bs)) res, Closed q']"
            by (simp only: bl la ze) (simp add: k)
          then show "case p of
                Single l \<Rightarrow>
                  (\<exists>q r. ?t = [Prepared q, Executed q (concat (last ?bs)) r, Closed q])
              | Split b bsz l \<Rightarrow>
                  (\<exists>q ress q' r. length ress = length (butlast ?bs)
                     \<and> ?t = Prepared q
                           # map (\<lambda>(rs, r). Executed q (concat rs) r) (zip (butlast ?bs) ress)
                           @ [Closed q, Prepared q', Executed q' (concat (last ?bs)) r, Closed q'])"
            unfolding Split plan.case by blast
        qed (simp_all add: results_of_append results_of_execs)
        moreover have "Exec s h rows
          = Some (?s', h @ ?t, Return (add (result ?s1) res) None)"
          by (simp add: ex1 b fin)
        ultimately show ?thesis using bs sz by blast
      qed
    qed
  qed
  then show ?thesis unfolding Q_def by blast
qed

subsection \<open>The log is what the database answered\<close>

lemma truthful_append:
  "truthful db h (t @ u) = (truthful db h t \<and> truthful db (h @ t) u)"
  by (induction db h t rule: truthful.induct) simp_all

lemma prepare_truthful:
  assumes "prepare s h count = (s', h', e)"
  shows "\<exists>t. h' = h @ t \<and> truthful (DB s) h t
           \<and> DB s' = DB s \<and> SQL s' = SQL s \<and> Casts s' = Casts s"
  using assms
  by (cases "dbPrepare (DB s) h (Replace1 (SQL s) ''<values>'' (valuePlaceholders s count))")
     (auto simp: prepare_def Let_def)

lemma execBatches_truthful:
  assumes "execBatches s h rows bsz b i = (s', h', st)"
  shows "\<exists>t. h' = h @ t \<and> truthful (DB s) h t
           \<and> DB s' = DB s \<and> SQL s' = SQL s \<and> Casts s' = Casts s"
  using assms
proof (induction s h rows bsz b i arbitrary: s' h' st rule: execBatches.induct)
  case (1 s h rows bsz b i)
  show ?case
  proof (cases "i < b")
    case False
    with "1.prems" show ?thesis by (subst (asm) execBatches.simps) simp
  next
    case True
    show ?thesis
    proof (cases "slice rows (i * bsz) (i * bsz + bsz)")
      case None
      with True "1.prems" show ?thesis by (subst (asm) execBatches.simps) simp
    next
      case (Some rs)
      show ?thesis
      proof (cases "stmt s")
        case None
        with True Some "1.prems" show ?thesis by (subst (asm) execBatches.simps) simp
      next
        case q: (Some q)
        show ?thesis
        proof (cases "stmtExec (DB s) h q (concat rs)")
          case (Inl e)
          with True Some q "1.prems" show ?thesis
            by (subst (asm) execBatches.simps) auto
        next
          case (Inr res)
          let ?s = "s\<lparr>result := add (result s) res\<rparr>"
          let ?h = "h @ [Executed q (concat rs) res]"
          from True Some q Inr "1.prems"
          have "execBatches ?s ?h rows bsz b (i + 1) = (s', h', st)"
            by (subst (asm) execBatches.simps) simp
          from "1.IH"[OF True Some q Inr this]
          obtain t where t: "h' = ?h @ t" "truthful (DB ?s) ?h t"
            "DB s' = DB ?s" "SQL s' = SQL ?s" "Casts s' = Casts ?s" by blast
          show ?thesis
            by (rule exI[of _ "Executed q (concat rs) res # t"]) (use t Inr in simp)
        qed
      qed
    qed
  qed
qed

lemma execRegular_truthful:
  assumes "execRegular s h rows bsz b = (s', h', st)"
  shows "\<exists>t. h' = h @ t \<and> truthful (DB s) h t
           \<and> DB s' = DB s \<and> SQL s' = SQL s \<and> Casts s' = Casts s"
proof -
  obtain s1 h1 e where pr: "prepare s h bsz = (s1, h1, e)" by (cases "prepare s h bsz") auto
  from prepare_truthful[OF pr] obtain t1 where t1: "h1 = h @ t1" "truthful (DB s) h t1"
    "DB s1 = DB s" "SQL s1 = SQL s" "Casts s1 = Casts s" by blast
  show ?thesis
  proof (cases e)
    case (Some err)
    with assms pr t1 show ?thesis by (auto simp: execRegular_def)
  next
    case None
    show ?thesis
    proof (cases "stmt s1")
      case n: None
      with assms pr None t1 show ?thesis by (auto simp: execRegular_def)
    next
      case (Some q)
      obtain s2 h2 st2 where eb: "execBatches s1 h1 rows bsz b 0 = (s2, h2, st2)"
        by (cases "execBatches s1 h1 rows bsz b 0") auto
      from execBatches_truthful[OF eb] obtain t2 where t2: "h2 = h1 @ t2"
        "truthful (DB s1) h1 t2" "DB s2 = DB s1" "SQL s2 = SQL s1" "Casts s2 = Casts s1"
        by blast
      from assms pr None Some eb have "s' = s2" "h' = h2 @ [Closed q]"
        by (simp_all add: execRegular_def)
      with t1 t2 show ?thesis
        by (intro exI[of _ "t1 @ t2 @ [Closed q]"]) (simp add: truthful_append)
    qed
  qed
qed

lemma execFinal_truthful:
  assumes "execFinal s h rows l = (s', h', out)"
  shows "\<exists>t. h' = h @ t \<and> truthful (DB s) h t
           \<and> DB s' = DB s \<and> SQL s' = SQL s \<and> Casts s' = Casts s"
proof -
  obtain s1 h1 e where pr: "prepare s h l = (s1, h1, e)" by (cases "prepare s h l") auto
  from prepare_truthful[OF pr] obtain t1 where t1: "h1 = h @ t1" "truthful (DB s) h t1"
    "DB s1 = DB s" "SQL s1 = SQL s" "Casts s1 = Casts s" by blast
  from assms pr have "\<exists>t2. h' = h1 @ t2 \<and> truthful (DB s1) h1 t2
      \<and> DB s' = DB s1 \<and> SQL s' = SQL s1 \<and> Casts s' = Casts s1"
    by (auto simp: execFinal_def split: option.splits sum.splits)
  then obtain t2 where "h' = h1 @ t2" "truthful (DB s1) h1 t2"
      "DB s' = DB s1" "SQL s' = SQL s1" "Casts s' = Casts s1" by blast
  with t1 show ?thesis
    by (intro exI[of _ "t1 @ t2"]) (simp add: truthful_append)
qed

lemma Exec_truthful:
  assumes "Exec s h rows = Some (s', h', out)"
  shows "\<exists>t. h' = h @ t \<and> truthful (DB s) h t
           \<and> DB s' = DB s \<and> SQL s' = SQL s \<and> Casts s' = Casts s"
proof (cases "planning (int (length (Casts s))) (int (length rows))")
  case None
  with assms show ?thesis by (simp add: Exec_planning)
next
  case (Some p)
  show ?thesis
  proof (cases p)
    case (Single l)
    with assms Some have "execFinal s h rows l = (s', h', out)" by (simp add: Exec_planning)
    then show ?thesis by (rule execFinal_truthful)
  next
    case (Split b bsz l)
    obtain s1 h1 st where er: "execRegular s h rows bsz b = (s1, h1, st)"
      by (cases "execRegular s h rows bsz b") auto
    from execRegular_truthful[OF er] obtain t1 where t1: "h1 = h @ t1" "truthful (DB s) h t1"
      "DB s1 = DB s" "SQL s1 = SQL s" "Casts s1 = Casts s" by blast
    show ?thesis
    proof (cases st)
      case Done
      with assms Some Split er have "execFinal s1 h1 rows l = (s', h', out)"
        by (simp add: Exec_planning)
      from execFinal_truthful[OF this] obtain t2 where "h' = h1 @ t2" "truthful (DB s1) h1 t2"
        "DB s' = DB s1" "SQL s' = SQL s1" "Casts s' = Casts s1" by blast
      with t1 show ?thesis
        by (intro exI[of _ "t1 @ t2"]) (simp add: truthful_append)
    next
      case (Failed e)
      with assms Some Split er t1 show ?thesis by (auto simp: Exec_planning)
    next
      case Panicked
      with assms Some Split er t1 show ?thesis by (auto simp: Exec_planning)
    qed
  qed
qed



section \<open>The claims about Exec\<close>

lemma rowsAffected_foldl:
  "rowsAffected (foldl add r ress) = rowsAffected r + sum_list (map rowsAffected ress)"
  by (induction ress arbitrary: r) (simp_all add: add_def)



lemma Exec_Some_planning:
  assumes "Exec s h rows = Some x"
  shows "\<exists>p. planning (int (length (Casts s))) (int (length rows)) = Some p"
  using assms by (cases "planning (int (length (Casts s))) (int (length rows))")
    (simp_all add: Exec_planning)


text \<open>
  C9: the result is a field of the Insert and Exec never resets it. Of two calls in a row
  on the same Insert, the second returns the result the first returned, advanced by the
  batches of the second call: its rows-affected include those of the first call.
\<close>

theorem result_accumulates_across_calls:
  assumes "Exec s h rows1 = Some (s1, h1, Return r1 e1)"
    and "Exec s1 h1 rows2 = Some (s2, h2, Return r2 e2)"
  shows "result s1 = r1 \<and> result s2 = r2
       \<and> r2 = foldl add r1 (results_of (drop (length h1) h2))
       \<and> rowsAffected r2
           = rowsAffected r1 + sum_list (map rowsAffected (results_of (drop (length h1) h2)))"
proof -
  from Exec_Some_planning[OF assms(1)] obtain p1
    where p1: "planning (int (length (Casts s))) (int (length rows1)) = Some p1" by blast
  from Exec_Some_planning[OF assms(2)] obtain p2
    where p2: "planning (int (length (Casts s1))) (int (length rows2)) = Some p2" by blast
  from Exec_run[OF p1, of h] assms(1) have a: "result s1 = r1" by auto
  from Exec_run[OF p2, of h1] assms(2) obtain t
    where b: "h2 = h1 @ t" "result s2 = r2" "r2 = foldl add (result s1) (results_of t)"
    by auto
  from a b show ?thesis by (simp add: rowsAffected_foldl)
qed


lemma kinds_execs:
  "map is_prepare (map (\<lambda>(rs, r). Executed q (f rs) r) zs) = replicate (length zs) False"
  "map is_exec (map (\<lambda>(rs, r). Executed q (f rs) r) zs) = replicate (length zs) True"
  "map is_close (map (\<lambda>(rs, r). Executed q (f rs) r) zs) = replicate (length zs) False"
  by (induction zs) (auto split: prod.splits)



text \<open>
  C8: one column without a cast and no rows. The plan is a single batch of size 0, the
  placeholder list is empty, no slice is out of range, and when the prepare and the
  execution succeed Exec returns without an error the result of the one execution, run with
  an empty argument list: zero rows affected when the database reports none for it.
\<close>

theorem empty_input_single_empty_batch:
  assumes "dbPrepare db h (Replace1 sql ''<values>'' []) = None"
    and "stmtExec db (h @ [Prepared (length h, Replace1 sql ''<values>'' [])])
           (length h, Replace1 sql ''<values>'' []) [] = Inr res"
  shows "planning (int (length [''''])) (int (length ([] :: 'v list list))) = Some (Single 0)
    \<and> plan_sizes (Single 0) = [0]
    \<and> batchRows (Single 0) ([] :: 'v list list) = Some [[]]
    \<and> valuePlaceholders (NewInsert db sql ['''']) 0 = []
    \<and> Exec (NewInsert db sql ['''']) h ([] :: 'v list list)
        = Some (NewInsert db sql ['''']
                  \<lparr>stmt := Some (length h, Replace1 sql ''<values>'' []),
                   result := add \<lparr>lastInsertId = 0, rowsAffected = 0\<rparr> res\<rparr>,
                h @ [Prepared (length h, Replace1 sql ''<values>'' []),
                     Executed (length h, Replace1 sql ''<values>'' []) [] res,
                     Closed (length h, Replace1 sql ''<values>'' [])],
                Return (add \<lparr>lastInsertId = 0, rowsAffected = 0\<rparr> res) None)
    \<and> rowsAffected (add \<lparr>lastInsertId = 0, rowsAffected = 0\<rparr> res) = rowsAffected res
    \<and> (rowsAffected res = 0
         \<longrightarrow> rowsAffected (add \<lparr>lastInsertId = 0, rowsAffected = 0\<rparr> res) = 0)"
proof -
  have vp: "valuePlaceholders (NewInsert db sql ['''']) 0 = []"
    by (simp add: valuePlaceholders_def rowLoop.simps)
  have pl: "planning (int (length [''''])) (int (length ([] :: 'v list list))) = Some (Single 0)"
    by (simp add: planning_def MaxBindVars_def)
  have ex: "Exec (NewInsert db sql ['''']) h ([] :: 'v list list)
        = Some (NewInsert db sql ['''']
                  \<lparr>stmt := Some (length h, Replace1 sql ''<values>'' []),
                   result := add \<lparr>lastInsertId = 0, rowsAffected = 0\<rparr> res\<rparr>,
                h @ [Prepared (length h, Replace1 sql ''<values>'' []),
                     Executed (length h, Replace1 sql ''<values>'' []) [] res,
                     Closed (length h, Replace1 sql ''<values>'' [])],
                Return (add \<lparr>lastInsertId = 0, rowsAffected = 0\<rparr> res) None)"
    using assms vp
    by (simp add: Exec_def execFinal_def prepare_def MaxBindVars_def slice_def Let_def
        NewInsert_def)
  show ?thesis using vp pl ex by (simp add: slice_def add_def)
qed

lemmas run_simps = Exec_def execFinal_def prepare_def MaxBindVars_def slice_def okDB_def
  failingDB_def add_def Let_def valuePlaceholders_def NewInsert_def rowLoop.simps itoa_def
  decimal.simps



text \<open>C9 on two calls: one row, then two rows; the second call returns three rows affected.\<close>

theorem result_accumulates_across_calls_witness:
  "Exec (NewInsert okDB ''<values>'' [[]]) [] [[7 :: nat]]
     = Some (NewInsert okDB ''<values>'' [[]]
               \<lparr>stmt := Some (0, ''($1)''), result := \<lparr>lastInsertId = 0, rowsAffected = 1\<rparr>\<rparr>,
             [Prepared (0, ''($1)''),
              Executed (0, ''($1)'') [7 :: nat] \<lparr>lastInsertId = 0, rowsAffected = 1\<rparr>,
              Closed (0, ''($1)'')],
             Return \<lparr>lastInsertId = 0, rowsAffected = 1\<rparr> None)
   \<and> Exec (NewInsert okDB ''<values>'' [[]]
               \<lparr>stmt := Some (0, ''($1)''), result := \<lparr>lastInsertId = 0, rowsAffected = 1\<rparr>\<rparr>)
            [Prepared (0, ''($1)''),
             Executed (0, ''($1)'') [7 :: nat] \<lparr>lastInsertId = 0, rowsAffected = 1\<rparr>,
             Closed (0, ''($1)'')]
            [[8 :: nat], [9]]
     = Some (NewInsert okDB ''<values>'' [[]]
               \<lparr>stmt := Some (3, ''($1),\<newline>($2)''),
                result := \<lparr>lastInsertId = 0, rowsAffected = 3\<rparr>\<rparr>,
             [Prepared (0, ''($1)''),
              Executed (0, ''($1)'') [7 :: nat] \<lparr>lastInsertId = 0, rowsAffected = 1\<rparr>,
              Closed (0, ''($1)''),
              Prepared (3, ''($1),\<newline>($2)''),
              Executed (3, ''($1),\<newline>($2)'') [8, 9] \<lparr>lastInsertId = 0, rowsAffected = 2\<rparr>,
              Closed (3, ''($1),\<newline>($2)'')],
             Return \<lparr>lastInsertId = 0, rowsAffected = 3\<rparr> None)
   \<and> rowsAffected \<lparr>lastInsertId = 0, rowsAffected = 3\<rparr>
       = rowsAffected \<lparr>lastInsertId = 0, rowsAffected = 1\<rparr> + 2"
proof -
  let ?s1 = "NewInsert okDB ''<values>'' [[]]
               \<lparr>stmt := Some (0, ''($1)''), result := \<lparr>lastInsertId = 0, rowsAffected = 1\<rparr>\<rparr>"
  let ?h1 = "[Prepared (0, ''($1)''),
              Executed (0, ''($1)'') [7 :: nat] \<lparr>lastInsertId = 0, rowsAffected = 1\<rparr>,
              Closed (0, ''($1)'')]"
  have a: "Exec (NewInsert okDB ''<values>'' [[]]) [] [[7 :: nat]]
     = Some (?s1, ?h1, Return \<lparr>lastInsertId = 0, rowsAffected = 1\<rparr> None)"
    by (simp add: run_simps)
  have b: "Exec ?s1 ?h1 [[8], [9]]
     = Some (NewInsert okDB ''<values>'' [[]]
               \<lparr>stmt := Some (3, ''($1),\<newline>($2)''),
                result := \<lparr>lastInsertId = 0, rowsAffected = 3\<rparr>\<rparr>,
             [Prepared (0, ''($1)''),
              Executed (0, ''($1)'') [7] \<lparr>lastInsertId = 0, rowsAffected = 1\<rparr>,
              Closed (0, ''($1)''),
              Prepared (3, ''($1),\<newline>($2)''),
              Executed (3, ''($1),\<newline>($2)'') [8, 9] \<lparr>lastInsertId = 0, rowsAffected = 2\<rparr>,
              Closed (3, ''($1),\<newline>($2)'')],
             Return \<lparr>lastInsertId = 0, rowsAffected = 3\<rparr> None)"
    by (simp add: run_simps)
  have c: "rowsAffected \<lparr>lastInsertId = 0, rowsAffected = 3\<rparr>
       = rowsAffected \<lparr>lastInsertId = 0, rowsAffected = 1\<rparr> + 2"
    using result_accumulates_across_calls[OF a b] by (simp add: add_def)
  show ?thesis by (rule conjI[OF a conjI[OF b c]])
qed


text \<open>C8 on a database that accepts everything.\<close>

theorem empty_input_single_empty_batch_witness:
  "Exec (NewInsert okDB ''INSERT INTO t (a) VALUES <values>'' [[]]) [] ([] :: nat list list)
     = Some (NewInsert okDB ''INSERT INTO t (a) VALUES <values>'' [[]]
               \<lparr>stmt := Some (0, ''INSERT INTO t (a) VALUES ''),
                result := \<lparr>lastInsertId = 0, rowsAffected = 0\<rparr>\<rparr>,
             [Prepared (0, ''INSERT INTO t (a) VALUES ''),
              Executed (0, ''INSERT INTO t (a) VALUES '') []
                \<lparr>lastInsertId = 0, rowsAffected = 0\<rparr>,
              Closed (0, ''INSERT INTO t (a) VALUES '')],
             Return \<lparr>lastInsertId = 0, rowsAffected = 0\<rparr> None)"
  using empty_input_single_empty_batch
    [of "okDB :: nat DB" "[]" "''INSERT INTO t (a) VALUES <values>''"
      "\<lparr>lastInsertId = 0, rowsAffected = 0\<rparr>"]
  by (simp add: okDB_def add_def)




section \<open>The placeholder list\<close>

lemma castLoop_eq:
  "castLoop i n j casts val
   = val @ map (\<lambda>k. ''$'' @ itoa (i * n + j + int k + 1)
                      @ (if casts ! k = [] then [] else ''::'' @ casts ! k))
             [0..<length casts]"
proof (induction casts arbitrary: j val)
  case Nil
  show ?case by simp
next
  case (Cons c cs)
  have "castLoop i n j (c # cs) val
        = castLoop i n (j + 1) cs
            (val @ [''$'' @ itoa (i * n + j + 1) @ (if c = [] then [] else ''::'' @ c)])"
    by (simp add: Let_def)
  also have "\<dots> = (val @ [''$'' @ itoa (i * n + j + 1) @ (if c = [] then [] else ''::'' @ c)])
      @ map (\<lambda>k. ''$'' @ itoa (i * n + (j + 1) + int k + 1)
                      @ (if cs ! k = [] then [] else ''::'' @ cs ! k))
             [0..<length cs]"
    by (rule Cons.IH)
  also have "\<dots> = val @ map (\<lambda>k. ''$'' @ itoa (i * n + j + int k + 1)
                      @ (if (c # cs) ! k = [] then [] else ''::'' @ (c # cs) ! k))
             [0..<length (c # cs)]"
    by (simp add: map_upt_Suc algebra_simps del: upt_Suc)
  finally show ?case .
qed

lemma rowLoop_eq:
  "rowLoop casts count i vals
   = vals @ map (\<lambda>k. ''('' @ Join (castLoop (i + int k) (int (length casts)) 0 casts []) '', ''
                        @ '')'')
                [0..<nat (count - i)]"
proof (induction casts count i vals rule: rowLoop.induct)
  case (1 casts count i vals)
  show ?case
  proof (cases "i < count")
    case False
    then show ?thesis by (subst rowLoop.simps) simp
  next
    case True
    let ?g = "\<lambda>i. ''('' @ Join (castLoop i (int (length casts)) 0 casts []) '', '' @ '')''"
    have n: "nat (count - i) = Suc (nat (count - (i + 1)))" using True by simp
    have "rowLoop casts count i vals = rowLoop casts count (i + 1) (vals @ [?g i])"
      using True by (subst rowLoop.simps) simp
    also have "\<dots> = (vals @ [?g i]) @ map (\<lambda>k. ?g (i + 1 + int k)) [0..<nat (count - (i + 1))]"
      by (rule "1.IH"[OF True])
    also have "\<dots> = vals @ map (\<lambda>k. ?g (i + int k)) [0..<nat (count - i)]"
      unfolding n by (simp add: map_upt_Suc algebra_simps del: upt_Suc)
    finally show ?thesis .
  qed
qed

lemma concat_rows_flat:
  "concat (map (\<lambda>i. map (\<lambda>j. g (i * c + j)) [0..<c]) [0..<n]) = map g [0..<n * c]"
proof (induction n)
  case 0
  show ?case by simp
next
  case (Suc n)
  have "map g [n * c..<n * c + c] = map (\<lambda>j. g (n * c + j)) [0..<c]"
  proof -
    have "[n * c..<n * c + c] = map (\<lambda>j. j + n * c) [0..<c]"
      by (simp add: map_add_upt add.commute)
    then show ?thesis by (simp add: comp_def add.commute)
  qed
  moreover have "[0..<Suc n * c] = [0..<n * c] @ [n * c..<n * c + c]"
    using upt_add_eq_append[of 0 "n * c" c] by (simp add: add.commute)
  ultimately show ?case using Suc by simp
qed

text \<open>
  C5: the fragment built for a batch of \<open>count\<close> rows is one parenthesised group per row,
  joined by comma and newline; in it row \<open>i\<close>, column \<open>j\<close> (both from 0) is
  \<open>$N\<close> with \<open>N = i * C + j + 1\<close>, followed by \<open>::cast\<close> when the column's cast is
  not empty and by nothing otherwise. Read row after row, the placeholders are those of the
  numbers \<open>1, 2, \<dots>, count * C\<close> in this order, each once, the \<open>k\<close>-th with the cast
  of column \<open>k mod C\<close>. The fragment depends on the casts and the row count only, so
  the numbering starts at 1 in every batch.
\<close>

theorem placeholders_numbered_row_major:
  "valuePlaceholders s count
     = Join (map (\<lambda>i. ''('' @ Join (map (\<lambda>j. ''$'' @ itoa (int i * int (length (Casts s)) + int j + 1)
                                             @ (if Casts s ! j = [] then []
                                                else ''::'' @ Casts s ! j))
                                     [0..<length (Casts s)]) '', ''
                        @ '')'')
               [0..<nat count]) '',\<newline>''
   \<and> concat (map (\<lambda>i. castLoop (int i) (int (length (Casts s))) 0 (Casts s) []) [0..<nat count])
     = map (\<lambda>k. ''$'' @ itoa (int k + 1)
                  @ (if Casts s ! (k mod length (Casts s)) = [] then []
                     else ''::'' @ Casts s ! (k mod length (Casts s))))
         [0..<nat count * length (Casts s)]"
proof
  show "valuePlaceholders s count
     = Join (map (\<lambda>i. ''('' @ Join (map (\<lambda>j. ''$'' @ itoa (int i * int (length (Casts s)) + int j + 1)
                                             @ (if Casts s ! j = [] then []
                                                else ''::'' @ Casts s ! j))
                                     [0..<length (Casts s)]) '', ''
                        @ '')'')
               [0..<nat count]) '',\<newline>''"
    by (simp add: valuePlaceholders_def rowLoop_eq castLoop_eq)
next
  let ?c = "length (Casts s)"
  let ?g = "\<lambda>k. ''$'' @ itoa (int k + 1)
                  @ (if Casts s ! (k mod ?c) = [] then [] else ''::'' @ Casts s ! (k mod ?c))"
  have "castLoop (int i) (int ?c) 0 (Casts s) [] = map (\<lambda>j. ?g (i * ?c + j)) [0..<?c]" for i
    by (auto simp: castLoop_eq algebra_simps)
  then have "concat (map (\<lambda>i. castLoop (int i) (int ?c) 0 (Casts s) []) [0..<nat count])
     = concat (map (\<lambda>i. map (\<lambda>j. ?g (i * ?c + j)) [0..<?c]) [0..<nat count])"
    by (simp only:)
  also have "\<dots> = map ?g [0..<nat count * ?c]"
    by (rule concat_rows_flat)
  finally show "concat (map (\<lambda>i. castLoop (int i) (int ?c) 0 (Casts s) []) [0..<nat count])
     = map ?g [0..<nat count * ?c]" .
qed

text \<open>C5 on three columns with the casts none, int, text and three rows.\<close>

theorem placeholders_numbered_row_major_witness:
  "valuePlaceholders (NewInsert (okDB :: nat DB) ''<values>'' [[], ''int'', ''text'']) 3
     = ''($1, $2::int, $3::text),\<newline>($4, $5::int, $6::text),\<newline>($7, $8::int, $9::text)''
   \<and> concat (map (\<lambda>i. castLoop (int i) 3 0 [[], ''int'', ''text''] []) [0..<3])
     = [''$1'', ''$2::int'', ''$3::text'', ''$4'', ''$5::int'', ''$6::text'',
        ''$7'', ''$8::int'', ''$9::text'']"
proof -
  let ?s = "NewInsert (okDB :: nat DB) ''<values>'' [[], ''int'', ''text'']"
  have c: "Casts ?s = [[], ''int'', ''text'']" by (simp add: NewInsert_def)
  have u: "[0..<3] = [0, 1, 2]" "[0..<9] = [0, 1, 2, 3, 4, 5, 6, 7, 8]"
    by (simp_all add: upt_rec)
  from placeholders_numbered_row_major[of ?s 3] show ?thesis
    unfolding c by (simp add: u itoa_def decimal.simps)
qed

section \<open>Further properties of Exec\<close>

text \<open>
  With fewer than \<^verbatim>\<open>MaxBindVars\<close> columns Exec always returns: the planning loop
  ends, no slice is out of range and no nil handle is used.
\<close>

theorem Exec_returns_below_ceiling:
  assumes "int (length (Casts s)) < MaxBindVars"
  shows "\<exists>s' h' res err. Exec s h rows = Some (s', h', Return res err)"
proof -
  from planning_total[OF _ assms, of "int (length rows)"] obtain p
    where "planning (int (length (Casts s))) (int (length rows)) = Some p" by auto
  from Exec_run[OF this, of h] show ?thesis by blast
qed

theorem Exec_returns_below_ceiling_witness:
  "int (length (Casts (NewInsert (okDB :: nat DB) ''<values>'' [[]]))) < MaxBindVars
   \<and> (\<exists>s' h' res err.
         Exec (NewInsert (okDB :: nat DB) ''<values>'' [[]]) [] [[7]]
           = Some (s', h', Return res err))"
proof -
  have a: "int (length (Casts (NewInsert (okDB :: nat DB) ''<values>'' [[]]))) < MaxBindVars"
    by (simp add: NewInsert_def MaxBindVars_def)
  from Exec_returns_below_ceiling[OF a] a show ?thesis by blast
qed

text \<open>
  With \<^verbatim>\<open>MaxBindVars\<close> columns or more and at least one row Exec never returns: the
  batch size is 0 and the planning loop does not end. Together with the theorem before,
  this is the whole of the defect behind C3.
\<close>

theorem Exec_never_returns_from_ceiling:
  assumes "MaxBindVars \<le> int (length (Casts s))" and "rows \<noteq> []"
  shows "Exec s h rows = None"
proof -
  have "1 \<le> int (length rows)" using assms(2) by (cases rows) simp_all
  from planning_diverges[OF this assms(1)] show ?thesis by (simp add: Exec_planning)
qed

theorem Exec_never_returns_from_ceiling_witness:
  "MaxBindVars \<le> int (length (Casts (NewInsert (okDB :: nat DB) ''<values>'' (replicate 70000 []))))
   \<and> [[1 :: nat]] \<noteq> []
   \<and> Exec (NewInsert (okDB :: nat DB) ''<values>'' (replicate 70000 [])) [] [[1]] = None"
proof -
  have a: "MaxBindVars
      \<le> int (length (Casts (NewInsert (okDB :: nat DB) ''<values>'' (replicate 70000 []))))"
    by (simp add: NewInsert_def MaxBindVars_def)
  have b: "[[1 :: nat]] \<noteq> []" by simp
  from Exec_never_returns_from_ceiling[OF a b] a b show ?thesis by blast
qed

text \<open>Exec never panics: every slice it takes is within the rows.\<close>

theorem Exec_never_panics:
  "Exec s h rows \<noteq> Some (s', h', Panic)"
proof (cases "planning (int (length (Casts s))) (int (length rows))")
  case None
  then show ?thesis by (simp add: Exec_planning)
next
  case (Some p)
  from Exec_run[OF this, of h] show ?thesis by auto
qed

text \<open>
  A call only appends to the log, what it appends is what the database answered, and it
  leaves the database handle, the template and the casts of the Insert as they were.
\<close>

theorem Exec_log_agrees_with_database:
  assumes "Exec s h rows = Some (s', h', out)"
  shows "\<exists>t. h' = h @ t \<and> truthful (DB s) h t
           \<and> DB s' = DB s \<and> SQL s' = SQL s \<and> Casts s' = Casts s"
  using assms by (rule Exec_truthful)

theorem Exec_log_agrees_with_database_witness:
  "Exec (NewInsert okDB ''<values>'' [[]]) [] [[7 :: nat]]
     = Some (NewInsert okDB ''<values>'' [[]]
               \<lparr>stmt := Some (0, ''($1)''), result := \<lparr>lastInsertId = 0, rowsAffected = 1\<rparr>\<rparr>,
             [Prepared (0, ''($1)''),
              Executed (0, ''($1)'') [7] \<lparr>lastInsertId = 0, rowsAffected = 1\<rparr>,
              Closed (0, ''($1)'')],
             Return \<lparr>lastInsertId = 0, rowsAffected = 1\<rparr> None)
   \<and> truthful (okDB :: nat DB) []
        [Prepared (0, ''($1)''),
         Executed (0, ''($1)'') [7] \<lparr>lastInsertId = 0, rowsAffected = 1\<rparr>,
         Closed (0, ''($1)'')]"
proof -
  have a: "Exec (NewInsert okDB ''<values>'' [[]]) [] [[7 :: nat]]
     = Some (NewInsert okDB ''<values>'' [[]]
               \<lparr>stmt := Some (0, ''($1)''), result := \<lparr>lastInsertId = 0, rowsAffected = 1\<rparr>\<rparr>,
             [Prepared (0, ''($1)''),
              Executed (0, ''($1)'') [7] \<lparr>lastInsertId = 0, rowsAffected = 1\<rparr>,
              Closed (0, ''($1)'')],
             Return \<lparr>lastInsertId = 0, rowsAffected = 1\<rparr> None)"
    by (simp add: run_simps)
  from Exec_log_agrees_with_database[OF a] have
    "truthful (DB (NewInsert (okDB :: nat DB) ''<values>'' [[]])) []
        [Prepared (0, ''($1)''),
         Executed (0, ''($1)'') [7] \<lparr>lastInsertId = 0, rowsAffected = 1\<rparr>,
         Closed (0, ''($1)'')]"
    by simp
  then have b: "truthful (okDB :: nat DB) []
        [Prepared (0, ''($1)''),
         Executed (0, ''($1)'') [7] \<lparr>lastInsertId = 0, rowsAffected = 1\<rparr>,
         Closed (0, ''($1)'')]"
    by (simp only: NewInsert_def Insert.simps)
  show ?thesis by (rule conjI[OF a b])
qed

text \<open>
  A call that returns without an error has executed every batch of the plan, and the
  rows-affected it returns is what the Insert held before plus the sum over the batches.
\<close>

theorem success_adds_up_every_batch:
  assumes "Exec s h rows = Some (s', h', Return res None)"
  shows "\<exists>p. planning (int (length (Casts s))) (int (length rows)) = Some p
           \<and> length (results_of (drop (length h) h')) = length (plan_sizes p)
           \<and> filter is_failure (drop (length h) h') = []
           \<and> rowsAffected res
               = rowsAffected (result s)
                 + sum_list (map rowsAffected (results_of (drop (length h) h')))"
proof -
  from Exec_Some_planning[OF assms] obtain p
    where p: "planning (int (length (Casts s))) (int (length rows)) = Some p" by blast
  from Exec_run[OF p, of h] obtain bs s'' t res' err where r:
    "length bs = length (plan_sizes p)"
    "Exec s h rows = Some (s'', h @ t, Return res' err)"
    "res' = foldl add (result s) (results_of t)"
    and c0: "case err of
         None \<Rightarrow>
           filter is_failure t = [] \<and> length (results_of t) = length bs
           \<and> length (filter is_exec t) = length bs
           \<and> length (filter is_prepare t) = (case p of Single l \<Rightarrow> 1 | Split b bsz l \<Rightarrow> 2)
           \<and> (case p of
                Single l \<Rightarrow>
                  (\<exists>q r. t = [Prepared q, Executed q (concat (last bs)) r, Closed q])
              | Split b bsz l \<Rightarrow>
                  (\<exists>q ress q' r. length ress = length (butlast bs)
                     \<and> t = Prepared q
                           # map (\<lambda>(rs, r). Executed q (concat rs) r) (zip (butlast bs) ress)
                           @ [Closed q, Prepared q', Executed q' (concat (last bs)) r, Closed q']))
       | Some e \<Rightarrow>
           length (results_of t) < length bs
           \<and> (\<exists>pre f post. t = pre @ f # post \<and> filter is_failure pre = []
                \<and> list_all is_close post
                \<and> ((\<exists>tx. f = PrepareFailed tx e \<and> dbPrepare (DB s) (h @ pre) tx = Some e)
                   \<or> (\<exists>q. f = ExecFailed q (concat (bs ! length (results_of t))) e
                        \<and> stmtExec (DB s) (h @ pre) q (concat (bs ! length (results_of t)))
                            = Inl e)))"
    by blast
  from r(2) assms have "err = None" by simp
  with c0 have c: "filter is_failure t = []" "length (results_of t) = length bs" by simp_all
  from r(2) assms have "h' = h @ t" "res' = res" "err = None" by simp_all
  with p r c show ?thesis by (auto simp: rowsAffected_foldl)
qed

theorem success_adds_up_every_batch_witness:
  "Exec (NewInsert okDB ''<values>'' [[]]) [] [[8 :: nat], [9]]
     = Some (NewInsert okDB ''<values>'' [[]]
               \<lparr>stmt := Some (0, ''($1),\<newline>($2)''),
                result := \<lparr>lastInsertId = 0, rowsAffected = 2\<rparr>\<rparr>,
             [Prepared (0, ''($1),\<newline>($2)''),
              Executed (0, ''($1),\<newline>($2)'') [8, 9] \<lparr>lastInsertId = 0, rowsAffected = 2\<rparr>,
              Closed (0, ''($1),\<newline>($2)'')],
             Return \<lparr>lastInsertId = 0, rowsAffected = 2\<rparr> None)
   \<and> planning (int (length (Casts (NewInsert (okDB :: nat DB) ''<values>'' [[]])))) 2
       = Some (Single 2)"
proof -
  have a: "Exec (NewInsert okDB ''<values>'' [[]]) [] [[8 :: nat], [9]]
     = Some (NewInsert okDB ''<values>'' [[]]
               \<lparr>stmt := Some (0, ''($1),\<newline>($2)''),
                result := \<lparr>lastInsertId = 0, rowsAffected = 2\<rparr>\<rparr>,
             [Prepared (0, ''($1),\<newline>($2)''),
              Executed (0, ''($1),\<newline>($2)'') [8, 9] \<lparr>lastInsertId = 0, rowsAffected = 2\<rparr>,
              Closed (0, ''($1),\<newline>($2)'')],
             Return \<lparr>lastInsertId = 0, rowsAffected = 2\<rparr> None)"
    by (simp add: run_simps)
  from success_adds_up_every_batch[OF a] obtain p where
    "planning (int (length (Casts (NewInsert (okDB :: nat DB) ''<values>'' [[]]))))
       (int (length [[8 :: nat], [9]])) = Some p"
    "length (results_of (drop (length ([] :: nat event list))
        [Prepared (0, ''($1),\<newline>($2)''),
         Executed (0, ''($1),\<newline>($2)'') [8 :: nat, 9] \<lparr>lastInsertId = 0, rowsAffected = 2\<rparr>,
         Closed (0, ''($1),\<newline>($2)'')])) = length (plan_sizes p)"
    by blast
  then have b: "planning (int (length (Casts (NewInsert (okDB :: nat DB) ''<values>'' [[]])))) 2
       = Some (Single 2)"
    by (cases p) (simp_all add: planning_def NewInsert_def MaxBindVars_def)
  show ?thesis by (rule conjI[OF a b])
qed

text \<open>
  The doc comment of Exec gives the number of batches as
  \<^verbatim>\<open>len(casts) * len(rows) / MaxBindVars + 1\<close>. That is a lower bound: the loop can add
  batches, as with 21845 columns and three rows, where three batches run and the formula
  gives two.
\<close>

theorem batch_count_at_least_documented:
  assumes "0 \<le> rowCount" and "0 \<le> columns" and "planning columns rowCount = Some p"
  shows "columns * rowCount div MaxBindVars + 1 \<le> int (length (plan_sizes p))"
proof (cases p)
  case (Single l)
  from planning_Single(2)[of columns rowCount l] Single assms
  show ?thesis by simp
next
  case (Split b bsz l)
  from planning_Split(1,8)[of columns rowCount b bsz l] Split assms
  show ?thesis by simp
qed

theorem batch_count_at_least_documented_witness:
  "planning 21845 3 = Some (Split 2 1 1)
   \<and> (21845 :: int) * 3 div MaxBindVars + 1 = 2
   \<and> int (length (plan_sizes (Split 2 1 1))) = 3"
proof -
  have p: "planning 21845 3 = Some (Split 2 1 1)"
    by (simp add: MaxBindVars_def planning_def rebalance.simps)
  from batch_count_at_least_documented[OF _ _ p] p show ?thesis
    by (simp add: MaxBindVars_def)
qed

end
